theory Spec2Isabelle
  imports Main "HOL-Library.Sublist"
begin

section \<open>Strings\<close>

text \<open>
  The script works on Python \<open>str\<close> values.  They are modelled as \<^typ>\<open>string\<close>, one
  \<^typ>\<open>char\<close> per code point, for documents whose code points lie below 256.  The
  substring test \<open>needle in text\<close> is \<^const>\<open>sublist\<close>.
\<close>

text \<open>
  \<open>\s\<close> of a \<open>str\<close> pattern and \<open>str.strip()\<close> use the same whitespace test: below 256 the
  code points 9 to 13, 28 to 32, 133 and 160.  \<open>\d\<close> matches the decimal digits, below 256
  only \<open>0\<close> to \<open>9\<close>.
\<close>

definition is_space :: "char \<Rightarrow> bool" where
  "is_space c = (let n = (of_char c :: nat) in
     (9 \<le> n \<and> n \<le> 13) \<or> (28 \<le> n \<and> n \<le> 32) \<or> n = 133 \<or> n = 160)"

definition is_digit :: "char \<Rightarrow> bool" where
  "is_digit c = (let n = (of_char c :: nat) in 48 \<le> n \<and> n \<le> 57)"

text \<open>\<open>s.split('\n')\<close>: never empty, and no piece holds a newline.\<close>

fun split_lines :: "string \<Rightarrow> string list" where
  "split_lines [] = [[]]"
| "split_lines (c # cs) =
     (if c = CHR 0x0A then [] # split_lines cs
      else (case split_lines cs of [] \<Rightarrow> [[c]] | l # ls \<Rightarrow> (c # l) # ls))"

text \<open>\<open>'\n'.join(xs)\<close>.\<close>

fun join_lines :: "string list \<Rightarrow> string" where
  "join_lines [] = []"
| "join_lines [x] = x"
| "join_lines (x # y # zs) = x @ CHR 0x0A # join_lines (y # zs)"

text \<open>\<open>s.strip()\<close>.\<close>

definition py_strip :: "string \<Rightarrow> string" where
  "py_strip s = rev (dropWhile is_space (rev (dropWhile is_space s)))"

text \<open>
  \<open>int(s)\<close> on a string of decimal digits.  Python integers are unbounded; the limit
  an interpreter may set on the number of digits \<open>int\<close> and \<open>str\<close> convert is left out.
\<close>

definition digit_val :: "char \<Rightarrow> int" where
  "digit_val c = int (of_char c) - 48"

definition py_int :: "string \<Rightarrow> int" where
  "py_int ds = foldl (\<lambda>acc c. 10 * acc + digit_val c) 0 ds"

text \<open>\<open>str(n)\<close> of an integer, as the f-strings of the log messages and of the prompt use it.\<close>

definition digit_char :: "nat \<Rightarrow> char" where
  "digit_char d = char_of (48 + d)"

function str_nat :: "nat \<Rightarrow> string" where
  "str_nat n = (if n < 10 then [digit_char n] else str_nat (n div 10) @ [digit_char (n mod 10)])"
  by pat_completeness auto
termination
  by (relation "measure (\<lambda>n. n)") auto

definition py_str :: "int \<Rightarrow> string" where
  "py_str i = (if i < 0 then CHR ''-'' # str_nat (nat (- i)) else str_nat (nat i))"

section \<open>Regular expressions as the script uses them\<close>

text \<open>
  The patterns of the script are sequences of single characters and character classes,
  each taken once or repeated (\<open>*\<close>, \<open>+\<close>, \<open>+?\<close>), with capture groups and \<open>$\<close>.
  \<open>re_match\<close> is \<open>re.match\<close>: a backtracking matcher anchored at the start of the string
  that tries the alternatives in Python's order (a greedy repetition takes a character
  first, a lazy one tries the rest of the pattern first) and returns the captured groups
  of the first way to match, or \<open>None\<close>.
\<close>

datatype atom = Lit char | Space | Digit | Dot

fun atom_ok :: "atom \<Rightarrow> char \<Rightarrow> bool" where
  "atom_ok (Lit d) c = (c = d)"
| "atom_ok Space c = is_space c"
| "atom_ok Digit c = is_digit c"
| "atom_ok Dot c = (c \<noteq> CHR 0x0A)"

datatype item =
    One atom | Star atom | Plus atom | LazyStar atom | LazyPlus atom
  | GroupOpen | GroupClose | Eol

text \<open>The captures: the groups closed so far, and the text of the group that is open.\<close>

type_synonym caps = "string list \<times> string option"

fun consume :: "char \<Rightarrow> caps \<Rightarrow> caps" where
  "consume c (gs, None) = (gs, None)"
| "consume c (gs, Some g) = (gs, Some (g @ [c]))"

fun re_match :: "item list \<Rightarrow> string \<Rightarrow> caps \<Rightarrow> string list option" where
  "re_match [] s k = Some (fst k)"
| "re_match (One a # r) s k =
     (case s of [] \<Rightarrow> None
      | c # cs \<Rightarrow> if atom_ok a c then re_match r cs (consume c k) else None)"
| "re_match (Star a # r) s k =
     (case (case s of [] \<Rightarrow> None
            | c # cs \<Rightarrow> if atom_ok a c then re_match (Star a # r) cs (consume c k) else None) of
        Some gs \<Rightarrow> Some gs
      | None \<Rightarrow> re_match r s k)"
| "re_match (Plus a # r) s k =
     (case s of [] \<Rightarrow> None
      | c # cs \<Rightarrow> if atom_ok a c then re_match (Star a # r) cs (consume c k) else None)"
| "re_match (LazyStar a # r) s k =
     (case re_match r s k of
        Some gs \<Rightarrow> Some gs
      | None \<Rightarrow>
          (case s of [] \<Rightarrow> None
           | c # cs \<Rightarrow> if atom_ok a c then re_match (LazyStar a # r) cs (consume c k) else None))"
| "re_match (LazyPlus a # r) s k =
     (case s of [] \<Rightarrow> None
      | c # cs \<Rightarrow> if atom_ok a c then re_match (LazyStar a # r) cs (consume c k) else None)"
| "re_match (GroupOpen # r) s k = re_match r s (fst k, Some [])"
| "re_match (GroupClose # r) s k =
     (case snd k of None \<Rightarrow> re_match r s k | Some g \<Rightarrow> re_match r s (fst k @ [g], None))"
| "re_match (Eol # r) s k = (if s = [] \<or> s = [CHR 0x0A] then re_match r s k else None)"

text \<open>The truth value of \<open>re.match(pattern, s)\<close>: whether there is a match object.\<close>

definition re_matches :: "item list \<Rightarrow> string \<Rightarrow> bool" where
  "re_matches pattern s = (re_match pattern s ([], None) \<noteq> None)"

definition lits :: "string \<Rightarrow> item list" where
  "lits s = map (\<lambda>c. One (Lit c)) s"

text \<open>\<open>phase_pattern = r'^## Phase (\d+):\s*(.+?)$'\<close>\<close>

definition phase_pattern :: "item list" where
  "phase_pattern =
     lits ''## Phase '' @ [GroupOpen, Plus Digit, GroupClose, One (Lit CHR '':''), Star Space,
       GroupOpen, LazyPlus Dot, GroupClose, Eol]"

text \<open>
  \<open>unchecked_pattern = r'^\s*-\s*\[\s*\]\s*(.+)'\<close>.  The script also binds
  \<open>checked_pattern\<close> and never uses it.
\<close>

definition unchecked_pattern :: "item list" where
  "unchecked_pattern =
     [Star Space, One (Lit CHR ''-''), Star Space, One (Lit CHR ''[''), Star Space,
      One (Lit CHR '']''), Star Space, GroupOpen, Plus Dot, GroupClose]"

section \<open>Phases and the completion check\<close>

record Phase =
  number :: int
  name :: string
  content :: string
  is_completed :: bool

text \<open>
  The loop of \<open>_is_phase_completed\<close> over the lines of the content; the result is the
  flag \<open>has_unchecked\<close>, and \<open>break\<close> is the branch that returns at once.
\<close>

fun completion_scan :: "string list \<Rightarrow> bool \<Rightarrow> bool" where
  "completion_scan [] in_automated_section = False"
| "completion_scan (line # rest) in_automated_section =
     (if sublist ''#### Automated Verification:'' line then completion_scan rest True
      else if sublist ''#### Manual Verification:'' line then completion_scan rest False
      else if in_automated_section then
        (if re_matches unchecked_pattern line then True
         else completion_scan rest in_automated_section)
      else completion_scan rest in_automated_section)"

definition is_phase_completed :: "string \<Rightarrow> bool" where
  "is_phase_completed phase_content = (\<not> completion_scan (split_lines phase_content) False)"

section \<open>The phase extractor\<close>

text \<open>\<open>re.match(phase_pattern, line)\<close> with \<open>(int(match.group(1)), match.group(2).strip())\<close>.\<close>

definition match_heading :: "string \<Rightarrow> (int \<times> string) option" where
  "match_heading line =
     (case re_match phase_pattern line ([], None) of
        None \<Rightarrow> None
      | Some gs \<Rightarrow> Some (py_int (gs ! 0), py_strip (gs ! 1)))"

text \<open>Saving the phase that is open, if there is one (the code does it at two places).\<close>

definition save_phase :: "Phase list \<Rightarrow> (int \<times> string) option \<Rightarrow> string list \<Rightarrow> Phase list" where
  "save_phase phases current_phase current_content =
     (case current_phase of
        None \<Rightarrow> phases
      | Some cp \<Rightarrow>
          (let phase_content = join_lines current_content
           in phases @ [\<lparr>number = fst cp, name = snd cp, content = phase_content,
                         is_completed = is_phase_completed phase_content\<rparr>]))"

fun parse_loop ::
  "string list \<Rightarrow> Phase list \<Rightarrow> (int \<times> string) option \<Rightarrow> string list \<Rightarrow> Phase list" where
  "parse_loop [] phases current_phase current_content =
     save_phase phases current_phase current_content"
| "parse_loop (line # rest) phases current_phase current_content =
     (case match_heading line of
        Some h \<Rightarrow> parse_loop rest (save_phase phases current_phase current_content) (Some h) []
      | None \<Rightarrow>
          (if current_phase \<noteq> None then parse_loop rest phases current_phase (current_content @ [line])
           else parse_loop rest phases current_phase current_content))"

section \<open>The world outside the script\<close>

text \<open>
  The file system and the agent are collaborators.  A plan file and the two places a slash
  command may be stored at are partial maps to their text (\<open>None\<close>: the path does not
  exist); \<open>query\<close> gives the messages the agent streams for a prompt.  Of a message the
  script reads whether it is an \<open>AssistantMessage\<close>, its blocks, and for the debug log the
  name of its type and its \<open>str\<close>; those two are fields of \<open>OtherMessage\<close>.
\<close>

datatype block = TextBlock string | OtherBlock

datatype message = AssistantMessage "block list" | OtherMessage string string

record world =
  plan_file :: "string \<Rightarrow> string option"
  home_command :: "string \<Rightarrow> string option"
  cwd_command :: "string \<Rightarrow> string option"
  query :: "string \<Rightarrow> message list"

record PlanAutomator =
  verbose :: bool
  dry_run :: bool

datatype error = FileNotFoundError string

text \<open>
  What a run does is a trace of events, in order: the calls of the logger with their
  level, \<open>print\<close>, the calls of \<open>load_slash_command\<close>, of \<open>query\<close> (prompt and
  permission mode), of \<open>asyncio.sleep\<close>, and of \<open>implement_phase\<close> by the run loop.
\<close>

datatype level = DEBUG | INFO | ERROR

datatype event =
    Log level string
  | Print string
  | LoadSlashCommand string
  | Query string string
  | Sleep nat
  | ImplementPhase string Phase

section \<open>Parsing a plan file\<close>

definition parse_plan :: "world \<Rightarrow> string \<Rightarrow> error + Phase list" where
  "parse_plan w plan_path =
     (case plan_file w plan_path of
        None \<Rightarrow> Inl (FileNotFoundError (''Plan file not found: '' @ plan_path))
      | Some doc \<Rightarrow> Inr (parse_loop (split_lines doc) [] None []))"

section \<open>Loading the prompt template\<close>

text \<open>The text after the first \<open>---\<close> of a string, if there is one.\<close>

fun after_dashes :: "string \<Rightarrow> string option" where
  "after_dashes [] = None"
| "after_dashes (c # cs) =
     (if prefix ''---'' (c # cs) then Some (drop 3 (c # cs)) else after_dashes cs)"

text \<open>
  \<open>content.split('---', 2)\<close> of a text that starts with \<open>---\<close> has three parts exactly
  when \<open>---\<close> occurs again after the first three characters; the third part is what
  follows that occurrence.
\<close>

definition strip_frontmatter :: "string \<Rightarrow> string" where
  "strip_frontmatter file_text =
     (if prefix ''---'' file_text then
        (case after_dashes (drop 3 file_text) of
           None \<Rightarrow> file_text
         | Some part2 \<Rightarrow> py_strip part2)
      else file_text)"

text \<open>The file of a command: under the home directory first, else under the current one.\<close>

definition find_command :: "world \<Rightarrow> string \<Rightarrow> string option" where
  "find_command w command_name =
     (case home_command w command_name of
        Some file_text \<Rightarrow> Some file_text
      | None \<Rightarrow> cwd_command w command_name)"

definition load_slash_command ::
  "world \<Rightarrow> string \<Rightarrow> event list \<Rightarrow> (error + string) \<times> event list" where
  "load_slash_command w command_name tr =
     (let tr1 = tr @ [LoadSlashCommand command_name]
      in case find_command w command_name of
           None \<Rightarrow> (Inl (FileNotFoundError (''Slash command not found: '' @ command_name)), tr1)
         | Some file_text \<Rightarrow> (Inr (strip_frontmatter file_text), tr1))"

section \<open>The phase driver\<close>

text \<open>
  What \<open>implement_phase\<close> does with the text of one \<open>TextBlock\<close>: the body of its inner
  loop, on the flag \<open>success\<close> and the trace.
\<close>

definition scan_text :: "PlanAutomator \<Rightarrow> string \<Rightarrow> bool \<times> event list \<Rightarrow> bool \<times> event list" where
  "scan_text self chunk st =
     (let (success, tr) = st;
          tr1 = tr @ [Log DEBUG (''Text block: '' @ take 100 chunk @ ''...'')];
          (success1, tr2) =
            (if sublist ''Phase'' chunk \<and> sublist ''Complete'' chunk
             then (True, tr1 @ [Log DEBUG ''Found success indicator''])
             else (success, tr1));
          (success2, tr3) =
            (if sublist ''Ready for Manual Verification'' chunk
             then (True, tr2 @ [Log INFO ''Phase requires manual verification'',
                     Log INFO ''Auto-confirming manual verification in automated mode''])
             else (success1, tr2));
          tr4 = (if verbose self then tr3 @ [Print chunk] else tr3)
      in (success2, tr4))"

text \<open>The inner loop, over the blocks of an assistant message.\<close>

fun scan_blocks :: "PlanAutomator \<Rightarrow> block list \<Rightarrow> bool \<times> event list \<Rightarrow> bool \<times> event list" where
  "scan_blocks self [] st = st"
| "scan_blocks self (TextBlock chunk # bs) st = scan_blocks self bs (scan_text self chunk st)"
| "scan_blocks self (OtherBlock # bs) st = scan_blocks self bs st"

text \<open>The outer loop, over the messages of the stream.\<close>

fun scan_messages ::
  "PlanAutomator \<Rightarrow> message list \<Rightarrow> bool \<times> event list \<Rightarrow> bool \<times> event list" where
  "scan_messages self [] st = st"
| "scan_messages self (AssistantMessage blocks # ms) (success, tr) =
     scan_messages self ms
       (scan_blocks self blocks
          (success, tr @ [Log DEBUG (''Received message type: '' @ ''AssistantMessage'')]))"
| "scan_messages self (OtherMessage type_name shown # ms) (success, tr) =
     scan_messages self ms
       (success, tr @ [Log DEBUG (''Received message type: '' @ type_name),
                       Log DEBUG (''Non-assistant message: '' @ shown)])"

text \<open>The prompt: the template, then the plan and the number of the phase.\<close>

definition build_prompt :: "string \<Rightarrow> string \<Rightarrow> Phase \<Rightarrow> string" where
  "build_prompt command_prompt plan_path phase =
     command_prompt @ [CHR 0x0A, CHR 0x0A] @ ''Plan: '' @ plan_path
       @ [CHR 0x0A] @ ''Phase: '' @ py_str (number phase)"

definition implement_phase ::
  "PlanAutomator \<Rightarrow> world \<Rightarrow> string \<Rightarrow> Phase \<Rightarrow> event list \<Rightarrow> (error + bool) \<times> event list" where
  "implement_phase self w plan_path phase tr =
     (let tr1 = tr @ [Log INFO (''Implementing Phase '' @ py_str (number phase) @ '': '' @ name phase)]
      in if is_completed phase then
           (Inr True,
            tr1 @ [Log INFO (''Phase '' @ py_str (number phase) @ '' already completed, skipping...'')])
         else if dry_run self then
           (Inr True,
            tr1 @ [Log INFO (''[DRY RUN] Would implement phase '' @ py_str (number phase))])
         else
           (case load_slash_command w ''implement_plan'' tr1 of
              (Inl e, tr2) \<Rightarrow> (Inl e, tr2)
            | (Inr command_prompt, tr2) \<Rightarrow>
                (let prompt = build_prompt command_prompt plan_path phase;
                     (success, tr3) =
                       scan_messages self (query w prompt)
                         (False, tr2 @ [Query prompt ''bypassPermissions''])
                 in (Inr success, tr3))))"

section \<open>The run controller\<close>

text \<open>Python's truth value of an \<open>Optional[int]\<close>: \<open>None\<close> and \<open>0\<close> are false.\<close>

fun truthy :: "int option \<Rightarrow> bool" where
  "truthy None = False"
| "truthy (Some i) = (i \<noteq> 0)"

definition filter_phases :: "int option \<Rightarrow> int option \<Rightarrow> Phase list \<Rightarrow> Phase list" where
  "filter_phases start_phase end_phase phases =
     (let phases1 = (if truthy start_phase
                     then filter (\<lambda>p. number p \<ge> the start_phase) phases else phases);
          phases2 = (if truthy end_phase
                     then filter (\<lambda>p. number p \<le> the end_phase) phases1 else phases1)
      in phases2)"

text \<open>
  The loop over the filtered phases: \<open>phases\<close> is the whole filtered list (the loop reads
  its length and its last element), the second list is what is still to do.
\<close>

fun run_phases ::
  "PlanAutomator \<Rightarrow> world \<Rightarrow> string \<Rightarrow> Phase list \<Rightarrow> Phase list \<Rightarrow> event list
     \<Rightarrow> (error + unit) \<times> event list" where
  "run_phases self w plan_path phases [] tr = (Inr (), tr)"
| "run_phases self w plan_path phases (phase # rest) tr =
     (let tr1 = tr @ [Log INFO (CHR 0x0A # replicate 60 CHR ''=''),
                      Log INFO (''Starting Phase '' @ py_str (number phase) @ ''/''
                                  @ py_str (int (length phases)) @ '': '' @ name phase),
                      Log INFO (replicate 60 CHR ''='' @ [CHR 0x0A]),
                      ImplementPhase plan_path phase]
      in case implement_phase self w plan_path phase tr1 of
           (Inl e, tr2) \<Rightarrow> (Inl e, tr2)
         | (Inr success, tr2) \<Rightarrow>
             if \<not> success then
               (Inr (), tr2 @ [Log ERROR (''Phase '' @ py_str (number phase)
                                           @ '' failed, stopping implementation'')])
             else
               (let tr3 = tr2 @ [Log INFO (''Phase '' @ py_str (number phase)
                                            @ '' completed successfully'')];
                    tr4 = (if number phase < number (last phases)
                           then tr3 @ [Log INFO ''Clearing context for next phase...'', Sleep 1]
                           else tr3)
                in run_phases self w plan_path phases rest tr4))"

definition run_full_implementation ::
  "PlanAutomator \<Rightarrow> world \<Rightarrow> string \<Rightarrow> int option \<Rightarrow> int option \<Rightarrow> event list
     \<Rightarrow> (error + unit) \<times> event list" where
  "run_full_implementation self w plan_path start_phase end_phase tr =
     (case parse_plan w plan_path of
        Inl e \<Rightarrow> (Inl e, tr)
      | Inr phases \<Rightarrow>
          if phases = [] then (Inr (), tr @ [Log ERROR ''No phases found in plan''])
          else
            (let tr1 = tr @ [Log INFO (''Found '' @ py_str (int (length phases))
                                        @ '' phases in plan'')];
                 selected = filter_phases start_phase end_phase phases
             in case run_phases self w plan_path selected selected tr1 of
                  (Inl e, tr2) \<Rightarrow> (Inl e, tr2)
                | (Inr u, tr2) \<Rightarrow>
                    (Inr (), tr2 @ [Log INFO (CHR 0x0A # replicate 60 CHR ''=''),
                                    Log INFO ''Implementation complete!''])))"

section \<open>Reading a trace\<close>

text \<open>The calls of the agent and of the template loader in a trace.\<close>

fun is_agent_call :: "event \<Rightarrow> bool" where
  "is_agent_call (Query prompt mode) = True"
| "is_agent_call e = False"

fun is_template_load :: "event \<Rightarrow> bool" where
  "is_template_load (LoadSlashCommand command_name) = True"
| "is_template_load e = False"

definition agent_calls :: "event list \<Rightarrow> event list" where
  "agent_calls tr = filter is_agent_call tr"

definition template_loads :: "event list \<Rightarrow> event list" where
  "template_loads tr = filter is_template_load tr"

text \<open>The events that only write to the log or to the terminal.\<close>

fun is_output :: "event \<Rightarrow> bool" where
  "is_output (Log lvl msg) = True"
| "is_output (Print msg) = True"
| "is_output e = False"

text \<open>The phases the run loop called the phase driver on, in the order of the calls.\<close>

fun implemented :: "event list \<Rightarrow> Phase list" where
  "implemented [] = []"
| "implemented (ImplementPhase plan_path phase # es) = phase # implemented es"
| "implemented (e # es) = implemented es"

text \<open>
  The verdict of the phase driver on a phase and the events it adds; neither depends on
  the trace it starts from (\<open>implement_phase_from\<close> below).
\<close>

definition verdict :: "PlanAutomator \<Rightarrow> world \<Rightarrow> string \<Rightarrow> Phase \<Rightarrow> error + bool" where
  "verdict self w plan_path phase = fst (implement_phase self w plan_path phase [])"

definition driver_events :: "PlanAutomator \<Rightarrow> world \<Rightarrow> string \<Rightarrow> Phase \<Rightarrow> event list" where
  "driver_events self w plan_path phase = snd (implement_phase self w plan_path phase [])"

section \<open>Checklist items and verification sections, as the specification words them\<close>

text \<open>
  An unchecked checklist item, read off the line from left to right: optional whitespace,
  \<open>-\<close>, optional whitespace, \<open>[\<close>, zero or more whitespace characters, \<open>]\<close>, optional
  whitespace, then at least one further character.  Since the whitespace before the item
  text is optional, any character after \<open>]\<close> will do.
\<close>

definition unchecked_item :: "string \<Rightarrow> bool" where
  "unchecked_item line =
     (case dropWhile is_space line of
        [] \<Rightarrow> False
      | c1 # r1 \<Rightarrow> c1 = CHR ''-'' \<and>
          (case dropWhile is_space r1 of
             [] \<Rightarrow> False
           | c2 # r2 \<Rightarrow> c2 = CHR ''['' \<and>
               (case dropWhile is_space r2 of
                  [] \<Rightarrow> False
                | c3 # r3 \<Rightarrow> c3 = CHR '']'' \<and> r3 \<noteq> [])))"

text \<open>
  A section header is a line that contains one of the two markers; a line that contains
  the marker of the automated section opens that section, also when it contains the
  other marker too.  The automated section is active after some lines when the last
  header among them opens it.
\<close>

definition is_section_header :: "string \<Rightarrow> bool" where
  "is_section_header line =
     (sublist ''#### Automated Verification:'' line \<or> sublist ''#### Manual Verification:'' line)"

definition section_active :: "string list \<Rightarrow> bool" where
  "section_active before =
     (case filter is_section_header (rev before) of
        [] \<Rightarrow> False
      | h # hs \<Rightarrow> sublist ''#### Automated Verification:'' h)"

text \<open>
  Line \<open>i\<close> of a content is an unchecked item of the automated section: the section is
  active after the lines before it, and the line is an item, not a header.
\<close>

definition unchecked_in_section :: "string list \<Rightarrow> nat \<Rightarrow> bool" where
  "unchecked_in_section ls i =
     (i < length ls \<and> section_active (take i ls) \<and> \<not> is_section_header (ls ! i)
      \<and> unchecked_item (ls ! i))"

section \<open>The headings of a document\<close>

definition is_phase_heading :: "string \<Rightarrow> bool" where
  "is_phase_heading line = (match_heading line \<noteq> None)"

text \<open>The phase record of a heading line and the lines of its body.\<close>

definition phase_of :: "string \<times> string list \<Rightarrow> Phase" where
  "phase_of seg =
     \<lparr>number = fst (the (match_heading (fst seg))), name = snd (the (match_heading (fst seg))),
      content = join_lines (snd seg), is_completed = is_phase_completed (join_lines (snd seg))\<rparr>"

text \<open>
  The lines of a document cut at its headings, from the end: the lines before the first
  heading, and each heading with the lines up to the next heading.
\<close>

fun cut_at_headings :: "string list \<Rightarrow> string list \<times> (string \<times> string list) list" where
  "cut_at_headings [] = ([], [])"
| "cut_at_headings (l # ls) =
     (if is_phase_heading l then ([], (l, fst (cut_at_headings ls)) # snd (cut_at_headings ls))
      else (l # fst (cut_at_headings ls), snd (cut_at_headings ls)))"

section \<open>The signals of a text chunk\<close>

text \<open>
  The script has no classifier of its own: it tests each text block in place
  (\<open>scan_text\<close>).  These are the signals a chunk yields as the specification words them,
  to compare the script with; a chunk that yields none contributes nothing.
\<close>

datatype signal = SUCCESS | MANUAL_VERIFICATION_PENDING

definition chunk_signals :: "string \<Rightarrow> signal list" where
  "chunk_signals chunk =
     (if sublist ''Phase'' chunk \<and> sublist ''Complete'' chunk then [SUCCESS] else [])
     @ (if sublist ''Ready for Manual Verification'' chunk
        then [MANUAL_VERIFICATION_PENDING] else [])"

text \<open>The text chunks of a stream: the texts of the text blocks of its assistant messages.\<close>

fun block_texts :: "block list \<Rightarrow> string list" where
  "block_texts [] = []"
| "block_texts (TextBlock chunk # bs) = chunk # block_texts bs"
| "block_texts (OtherBlock # bs) = block_texts bs"

fun text_chunks :: "message list \<Rightarrow> string list" where
  "text_chunks [] = []"
| "text_chunks (AssistantMessage blocks # ms) = block_texts blocks @ text_chunks ms"
| "text_chunks (OtherMessage type_name shown # ms) = text_chunks ms"

section \<open>Examples\<close>

text \<open>A world with no file at all and an agent that says nothing.\<close>

definition no_files :: world where
  "no_files = \<lparr>plan_file = (\<lambda>p. None), home_command = (\<lambda>n. None),
                cwd_command = (\<lambda>n. None), query = (\<lambda>p. [])\<rparr>"

text \<open>
  A plan of three phases, none of them complete, and a world that holds it: the template
  is in the current directory, and the agent reports the first phase complete and
  nothing of the kind for any other prompt.
\<close>

definition three_phases :: string where
  "three_phases =
     ''# Plan\<newline>\<newline>## Phase 1: Setup\<newline>#### Automated Verification:\<newline>- [ ] lint passes\<newline>## Phase 2: Build\<newline>#### Automated Verification:\<newline>- [ ] tests pass\<newline>## Phase 3: Ship\<newline>#### Automated Verification:\<newline>- [ ] deploy works''"

definition setup_phase :: Phase where
  "setup_phase = \<lparr>number = 1, name = ''Setup'',
     content = ''#### Automated Verification:\<newline>- [ ] lint passes'', is_completed = False\<rparr>"

definition build_phase :: Phase where
  "build_phase = \<lparr>number = 2, name = ''Build'',
     content = ''#### Automated Verification:\<newline>- [ ] tests pass'', is_completed = False\<rparr>"

definition ship_phase :: Phase where
  "ship_phase = \<lparr>number = 3, name = ''Ship'',
     content = ''#### Automated Verification:\<newline>- [ ] deploy works'', is_completed = False\<rparr>"

definition three_phase_world :: world where
  "three_phase_world =
     \<lparr>plan_file = (\<lambda>p. if p = ''plan.md'' then Some three_phases else None),
      home_command = (\<lambda>n. None),
      cwd_command = (\<lambda>n. if n = ''implement_plan'' then Some ''Implement the phase.'' else None),
      query = (\<lambda>prompt.
        if prompt = ''Implement the phase.\<newline>\<newline>Plan: plan.md\<newline>Phase: 1''
        then [AssistantMessage [TextBlock ''Phase 1 Complete'']]
        else [AssistantMessage [TextBlock ''I could not finish.'']])\<rparr>"

text \<open>A plan that lists its second phase first.\<close>

definition reversed_world :: world where
  "reversed_world =
     \<lparr>plan_file = (\<lambda>p. if p = ''plan.md''
                       then Some ''## Phase 2: Build\<newline>## Phase 1: Setup'' else None),
      home_command = (\<lambda>n. None), cwd_command = (\<lambda>n. None), query = (\<lambda>p. [])\<rparr>"


section \<open>Traces of the driver and of the run loop\<close>


lemma implemented_append: "implemented (a @ b) = implemented a @ implemented b"
  by (induction a rule: implemented.induct) simp_all

lemma agent_calls_append: "agent_calls (a @ b) = agent_calls a @ agent_calls b"
  by (simp add: agent_calls_def)

lemma agent_calls_Nil: "agent_calls [] = []"
  by (simp add: agent_calls_def)

lemma agent_calls_Cons:
  "agent_calls (e # es) = (if is_agent_call e then e # agent_calls es else agent_calls es)"
  by (simp add: agent_calls_def)

lemma template_loads_append: "template_loads (a @ b) = template_loads a @ template_loads b"
  by (simp add: template_loads_def)

lemma output_only:
  assumes "list_all is_output ev"
  shows "agent_calls ev = [] \<and> template_loads ev = [] \<and> implemented ev = []"
  using assms
proof (induction ev)
  case Nil
  show ?case by (simp add: agent_calls_def template_loads_def)
next
  case (Cons e ev)
  then show ?case by (cases e) (simp_all add: agent_calls_def template_loads_def)
qed

text \<open>One text block: the flag is raised by either signal, and only output is added.\<close>

lemma scan_text_eq:
  "\<exists>ev. list_all is_output ev \<and>
     (\<forall>s t. scan_text self chunk (s, t) =
        (s \<or> chunk_signals chunk \<noteq> [], t @ ev))"
proof -
  let ?a = "[Log DEBUG (''Text block: '' @ take 100 chunk @ ''...'')]"
  let ?b = "if sublist ''Phase'' chunk \<and> sublist ''Complete'' chunk
            then [Log DEBUG ''Found success indicator''] else []"
  let ?c = "if sublist ''Ready for Manual Verification'' chunk
            then [Log INFO ''Phase requires manual verification'',
                  Log INFO ''Auto-confirming manual verification in automated mode'']
            else []"
  let ?d = "if verbose self then [Print chunk] else []"
  have "list_all is_output (?a @ ?b @ ?c @ ?d)" by simp
  moreover have "scan_text self chunk (s, t) =
        (s \<or> chunk_signals chunk \<noteq> [], t @ (?a @ ?b @ ?c @ ?d))" for s t
    by (auto simp add: scan_text_def chunk_signals_def Let_def)
  ultimately show ?thesis by blast
qed

lemma scan_blocks_eq:
  "\<exists>ev. list_all is_output ev \<and>
     (\<forall>s t. scan_blocks self bs (s, t) =
        (s \<or> (\<exists>c \<in> set (block_texts bs). chunk_signals c \<noteq> []), t @ ev))"
proof (induction bs)
  case Nil
  have "list_all is_output []" by simp
  then show ?case by fastforce
next
  case (Cons b bs)
  from Cons.IH obtain ev2 where ev2: "list_all is_output ev2"
    "\<And>s t. scan_blocks self bs (s, t) =
        (s \<or> (\<exists>c \<in> set (block_texts bs). chunk_signals c \<noteq> []), t @ ev2)"
    by blast
  show ?case
  proof (cases b)
    case OtherBlock
    with ev2 show ?thesis by auto
  next
    case (TextBlock chunk)
    obtain ev1 where ev1: "list_all is_output ev1"
      "\<And>s t. scan_text self chunk (s, t) = (s \<or> chunk_signals chunk \<noteq> [], t @ ev1)"
      using scan_text_eq [of self chunk] by blast
    have "list_all is_output (ev1 @ ev2)" using ev1(1) ev2(1) by simp
    moreover have "scan_blocks self (b # bs) (s, t) =
        (s \<or> (\<exists>c \<in> set (block_texts (b # bs)). chunk_signals c \<noteq> []), t @ (ev1 @ ev2))" for s t
      unfolding TextBlock by (auto simp add: ev1(2) ev2(2))
    ultimately show ?thesis by blast
  qed
qed

lemma scan_messages_eq:
  "\<exists>ev. list_all is_output ev \<and>
     (\<forall>s t. scan_messages self ms (s, t) =
        (s \<or> (\<exists>c \<in> set (text_chunks ms). chunk_signals c \<noteq> []), t @ ev))"
proof (induction ms)
  case Nil
  have "list_all is_output []" by simp
  then show ?case by fastforce
next
  case (Cons m ms)
  from Cons.IH obtain ev2 where ev2: "list_all is_output ev2"
    "\<And>s t. scan_messages self ms (s, t) =
        (s \<or> (\<exists>c \<in> set (text_chunks ms). chunk_signals c \<noteq> []), t @ ev2)"
    by blast
  show ?case
  proof (cases m)
    case (AssistantMessage blocks)
    obtain ev1 where ev1: "list_all is_output ev1"
      "\<And>s t. scan_blocks self blocks (s, t) =
        (s \<or> (\<exists>c \<in> set (block_texts blocks). chunk_signals c \<noteq> []), t @ ev1)"
      using scan_blocks_eq [of self blocks] by blast
    let ?e = "[Log DEBUG (''Received message type: '' @ ''AssistantMessage'')]"
    have "list_all is_output (?e @ ev1 @ ev2)" using ev1(1) ev2(1) by simp
    moreover have "scan_messages self (m # ms) (s, t) =
        (s \<or> (\<exists>c \<in> set (text_chunks (m # ms)). chunk_signals c \<noteq> []), t @ (?e @ ev1 @ ev2))"
      for s t
      unfolding AssistantMessage by (auto simp add: ev1(2) ev2(2))
    ultimately show ?thesis by blast
  next
    case (OtherMessage type_name shown)
    let ?e = "[Log DEBUG (''Received message type: '' @ type_name),
               Log DEBUG (''Non-assistant message: '' @ shown)]"
    have "list_all is_output (?e @ ev2)" using ev2(1) by simp
    moreover have "scan_messages self (m # ms) (s, t) =
        (s \<or> (\<exists>c \<in> set (text_chunks (m # ms)). chunk_signals c \<noteq> []), t @ (?e @ ev2))"
      for s t
      unfolding OtherMessage by (simp add: ev2(2))
    ultimately show ?thesis by blast
  qed
qed

lemma implement_phase_live:
  assumes "\<not> is_completed phase" and "\<not> dry_run self"
    and "find_command w ''implement_plan'' = Some file_text"
  shows "\<exists>ev. list_all is_output ev \<and>
     (\<forall>tr. implement_phase self w plan_path phase tr =
        (Inr (\<exists>c \<in> set (text_chunks
                 (query w (build_prompt (strip_frontmatter file_text) plan_path phase))).
               chunk_signals c \<noteq> []),
         tr @ [Log INFO (''Implementing Phase '' @ py_str (number phase) @ '': '' @ name phase),
               LoadSlashCommand ''implement_plan'',
               Query (build_prompt (strip_frontmatter file_text) plan_path phase)
                 ''bypassPermissions''] @ ev))"
proof -
  let ?prompt = "build_prompt (strip_frontmatter file_text) plan_path phase"
  obtain ev where ev: "list_all is_output ev"
    "\<And>s t. scan_messages self (query w ?prompt) (s, t) =
        (s \<or> (\<exists>c \<in> set (text_chunks (query w ?prompt)). chunk_signals c \<noteq> []), t @ ev)"
    using scan_messages_eq [of self "query w ?prompt"] by blast
  have "implement_phase self w plan_path phase tr =
        (Inr (\<exists>c \<in> set (text_chunks (query w ?prompt)). chunk_signals c \<noteq> []),
         tr @ [Log INFO (''Implementing Phase '' @ py_str (number phase) @ '': '' @ name phase),
               LoadSlashCommand ''implement_plan'',
               Query ?prompt ''bypassPermissions''] @ ev)" for tr
    using assms by (simp add: implement_phase_def load_slash_command_def Let_def ev(2))
  with ev(1) show ?thesis by blast
qed

lemma implement_phase_no_template:
  assumes "\<not> is_completed phase" and "\<not> dry_run self"
    and "find_command w ''implement_plan'' = None"
  shows "implement_phase self w plan_path phase tr =
        (Inl (FileNotFoundError (''Slash command not found: '' @ ''implement_plan'')),
         tr @ [Log INFO (''Implementing Phase '' @ py_str (number phase) @ '': '' @ name phase),
               LoadSlashCommand ''implement_plan''])"
  using assms by (simp add: implement_phase_def load_slash_command_def Let_def)

lemma implement_phase_skip:
  assumes "is_completed phase \<or> dry_run self"
  shows "implement_phase self w plan_path phase tr =
        (Inr True,
         tr @ [Log INFO (''Implementing Phase '' @ py_str (number phase) @ '': '' @ name phase),
               Log INFO (if is_completed phase
                  then ''Phase '' @ py_str (number phase) @ '' already completed, skipping...''
                  else ''[DRY RUN] Would implement phase '' @ py_str (number phase))])"
  using assms by (auto simp add: implement_phase_def Let_def)

lemma implement_phase_from:
  "implement_phase self w plan_path phase tr =
     (verdict self w plan_path phase, tr @ driver_events self w plan_path phase)"
proof (cases "is_completed phase \<or> dry_run self")
  case True
  show ?thesis
    unfolding verdict_def driver_events_def implement_phase_skip [OF True] by simp
next
  case False
  then have no: "\<not> is_completed phase" "\<not> dry_run self" by simp_all
  show ?thesis
  proof (cases "find_command w ''implement_plan''")
    case None
    show ?thesis
      unfolding verdict_def driver_events_def implement_phase_no_template [OF no None] by simp
  next
    case (Some file_text)
    from implement_phase_live [OF no Some, of plan_path] obtain r ev where
      "\<And>t. implement_phase self w plan_path phase t = (r, t @ ev)"
      by blast
    then show ?thesis
      unfolding verdict_def driver_events_def by simp
  qed
qed

lemma driver_events_implemented: "implemented (driver_events self w plan_path phase) = []"
proof (cases "is_completed phase \<or> dry_run self")
  case True
  show ?thesis
    unfolding driver_events_def implement_phase_skip [OF True] by simp
next
  case False
  then have no: "\<not> is_completed phase" "\<not> dry_run self" by simp_all
  show ?thesis
  proof (cases "find_command w ''implement_plan''")
    case None
    show ?thesis
      unfolding driver_events_def implement_phase_no_template [OF no None] by simp
  next
    case (Some file_text)
    from implement_phase_live [OF no Some, of plan_path] obtain r ev where
      "list_all is_output ev" "\<And>t. implement_phase self w plan_path phase t = (r, t @ [
          Log INFO (''Implementing Phase '' @ py_str (number phase) @ '': '' @ name phase),
          LoadSlashCommand ''implement_plan'',
          Query (build_prompt (strip_frontmatter file_text) plan_path phase)
                 ''bypassPermissions''] @ ev)"
      by blast
    then show ?thesis
      unfolding driver_events_def by (simp add: output_only)
  qed
qed

text \<open>One turn of the run loop.\<close>

lemma run_phases_turn:
  "\<exists>a b. list_all is_output a
     \<and> agent_calls b = [] \<and> template_loads b = [] \<and> implemented b = [] \<and>
     (\<forall>tr. run_phases self w plan_path phases (phase # rest) tr =
       (case verdict self w plan_path phase of
          Inl e \<Rightarrow> (Inl e, tr @ a @ [ImplementPhase plan_path phase]
                              @ driver_events self w plan_path phase)
        | Inr success \<Rightarrow>
            if success
            then run_phases self w plan_path phases rest
                   (tr @ a @ [ImplementPhase plan_path phase]
                       @ driver_events self w plan_path phase @ b)
            else (Inr (), tr @ a @ [ImplementPhase plan_path phase]
                              @ driver_events self w plan_path phase
                              @ [Log ERROR (''Phase '' @ py_str (number phase)
                                           @ '' failed, stopping implementation'')])))"
proof -
  let ?a = "[Log INFO (CHR 0x0A # replicate 60 CHR ''=''),
                      Log INFO (''Starting Phase '' @ py_str (number phase) @ ''/''
                                  @ py_str (int (length phases)) @ '': '' @ name phase),
                      Log INFO (replicate 60 CHR ''='' @ [CHR 0x0A])]"
  let ?b = "Log INFO (''Phase '' @ py_str (number phase) @ '' completed successfully'')
            # (if number phase < number (last phases)
                           then [Log INFO ''Clearing context for next phase...'', Sleep 1]
                           else [])"
  show ?thesis
    apply (rule exI [of _ ?a])
    apply (rule exI [of _ ?b])
    apply (simp add: implement_phase_from Let_def agent_calls_def template_loads_def
        split: sum.splits)
    done
qed

lemma run_phases_stops:
  assumes "\<forall>q \<in> set pre. verdict self w plan_path q = Inr True"
    and "verdict self w plan_path p = Inr False"
  shows "fst (run_phases self w plan_path phases (pre @ p # post) tr) = Inr ()
    \<and> implemented (snd (run_phases self w plan_path phases (pre @ p # post) tr))
        = implemented tr @ pre @ [p]
    \<and> agent_calls (snd (run_phases self w plan_path phases (pre @ p # post) tr))
        = agent_calls tr
          @ concat (map (\<lambda>q. agent_calls (driver_events self w plan_path q)) (pre @ [p]))"
  using assms(1)
proof (induction pre arbitrary: tr)
  case Nil
  obtain a b where ab: "list_all is_output a"
    "\<And>tr. run_phases self w plan_path phases (p # post) tr =
       (case verdict self w plan_path p of
          Inl e \<Rightarrow> (Inl e, tr @ a @ [ImplementPhase plan_path p]
                              @ driver_events self w plan_path p)
        | Inr success \<Rightarrow>
            if success
            then run_phases self w plan_path phases post
                   (tr @ a @ [ImplementPhase plan_path p]
                       @ driver_events self w plan_path p @ b)
            else (Inr (), tr @ a @ [ImplementPhase plan_path p]
                              @ driver_events self w plan_path p
                              @ [Log ERROR (''Phase '' @ py_str (number p)
                                           @ '' failed, stopping implementation'')]))"
    using run_phases_turn [of self w plan_path phases p post] by blast
  show ?case
    using output_only [OF ab(1)]
    by (simp add: ab(2) assms(2) implemented_append agent_calls_append
        driver_events_implemented del: run_phases.simps) (simp add: agent_calls_def)
next
  case (Cons q pre)
  obtain a b where ab: "list_all is_output a"
    "agent_calls b = []" "template_loads b = []" "implemented b = []"
    "\<And>tr. run_phases self w plan_path phases (q # pre @ p # post) tr =
       (case verdict self w plan_path q of
          Inl e \<Rightarrow> (Inl e, tr @ a @ [ImplementPhase plan_path q]
                              @ driver_events self w plan_path q)
        | Inr success \<Rightarrow>
            if success
            then run_phases self w plan_path phases (pre @ p # post)
                   (tr @ a @ [ImplementPhase plan_path q]
                       @ driver_events self w plan_path q @ b)
            else (Inr (), tr @ a @ [ImplementPhase plan_path q]
                              @ driver_events self w plan_path q
                              @ [Log ERROR (''Phase '' @ py_str (number q)
                                           @ '' failed, stopping implementation'')]))"
    using run_phases_turn [of self w plan_path phases q "pre @ p # post"] by blast
  from Cons.prems have q: "verdict self w plan_path q = Inr True"
    and pre: "\<forall>q \<in> set pre. verdict self w plan_path q = Inr True"
    by simp_all
  show ?case
    using Cons.IH [OF pre, of "tr @ a @ [ImplementPhase plan_path q]
                       @ driver_events self w plan_path q @ b"] output_only [OF ab(1)]
    by (simp add: ab q implemented_append agent_calls_append agent_calls_Cons
        driver_events_implemented del: run_phases.simps)
qed

lemma run_phases_order:
  "\<exists>k. implemented (snd (run_phases self w plan_path phases todo tr))
         = implemented tr @ take k todo"
proof (induction todo arbitrary: tr)
  case Nil
  show ?case by simp
next
  case (Cons q todo)
  obtain a b where ab: "list_all is_output a"
    "agent_calls b = []" "template_loads b = []" "implemented b = []"
    "\<And>tr. run_phases self w plan_path phases (q # todo) tr =
       (case verdict self w plan_path q of
          Inl e \<Rightarrow> (Inl e, tr @ a @ [ImplementPhase plan_path q]
                              @ driver_events self w plan_path q)
        | Inr success \<Rightarrow>
            if success
            then run_phases self w plan_path phases todo
                   (tr @ a @ [ImplementPhase plan_path q]
                       @ driver_events self w plan_path q @ b)
            else (Inr (), tr @ a @ [ImplementPhase plan_path q]
                              @ driver_events self w plan_path q
                              @ [Log ERROR (''Phase '' @ py_str (number q)
                                           @ '' failed, stopping implementation'')]))"
    using run_phases_turn [of self w plan_path phases q todo] by blast
  note out = output_only [OF ab(1)]
  show ?case
  proof (cases "verdict self w plan_path q = Inr True")
    case True
    from Cons.IH [of "tr @ a @ [ImplementPhase plan_path q]
                       @ driver_events self w plan_path q @ b"]
    obtain k where "implemented (snd (run_phases self w plan_path phases todo
        (tr @ a @ [ImplementPhase plan_path q] @ driver_events self w plan_path q @ b)))
         = implemented (tr @ a @ [ImplementPhase plan_path q]
              @ driver_events self w plan_path q @ b) @ take k todo"
      by blast
    then have "implemented (snd (run_phases self w plan_path phases (q # todo) tr))
         = implemented tr @ take (Suc k) (q # todo)"
      using out by (simp add: ab True implemented_append driver_events_implemented
          del: run_phases.simps)
    then show ?thesis by blast
  next
    case False
    have "implemented (snd (run_phases self w plan_path phases (q # todo) tr))
         = implemented tr @ take (Suc 0) (q # todo)"
      using out False
      by (simp add: ab implemented_append driver_events_implemented del: run_phases.simps
          split: sum.splits)
    then show ?thesis by blast
  qed
qed

lemma run_phases_all:
  assumes "\<forall>q \<in> set todo. verdict self w plan_path q = Inr True"
  shows "fst (run_phases self w plan_path phases todo tr) = Inr ()
    \<and> implemented (snd (run_phases self w plan_path phases todo tr)) = implemented tr @ todo"
  using assms
proof (induction todo arbitrary: tr)
  case Nil
  show ?case by simp
next
  case (Cons q todo)
  obtain a b where ab: "list_all is_output a"
    "agent_calls b = []" "template_loads b = []" "implemented b = []"
    "\<And>tr. run_phases self w plan_path phases (q # todo) tr =
       (case verdict self w plan_path q of
          Inl e \<Rightarrow> (Inl e, tr @ a @ [ImplementPhase plan_path q]
                              @ driver_events self w plan_path q)
        | Inr success \<Rightarrow>
            if success
            then run_phases self w plan_path phases todo
                   (tr @ a @ [ImplementPhase plan_path q]
                       @ driver_events self w plan_path q @ b)
            else (Inr (), tr @ a @ [ImplementPhase plan_path q]
                              @ driver_events self w plan_path q
                              @ [Log ERROR (''Phase '' @ py_str (number q)
                                           @ '' failed, stopping implementation'')]))"
    using run_phases_turn [of self w plan_path phases q todo] by blast
  from Cons.prems have q: "verdict self w plan_path q = Inr True"
    and rest: "\<forall>q \<in> set todo. verdict self w plan_path q = Inr True"
    by simp_all
  show ?case
    using Cons.IH [OF rest, of "tr @ a @ [ImplementPhase plan_path q]
                       @ driver_events self w plan_path q @ b"] output_only [OF ab(1)]
    by (simp add: ab q implemented_append driver_events_implemented del: run_phases.simps)
qed

section \<open>Properties of the phase driver\<close>

text \<open>
  Claim C5.  For a phase whose \<open>is_completed\<close> flag is true, the phase driver returns
  Success, whatever the mode and the world are, and its trace gains no call of the agent
  and no load of the prompt template.
\<close>

theorem completed_phase_makes_no_call:
  assumes "is_completed phase"
  shows "fst (implement_phase self w plan_path phase tr) = Inr True
    \<and> agent_calls (snd (implement_phase self w plan_path phase tr)) = agent_calls tr
    \<and> template_loads (snd (implement_phase self w plan_path phase tr)) = template_loads tr"
  using assms by (simp add: implement_phase_def agent_calls_def template_loads_def Let_def)

theorem completed_phase_makes_no_call_witness:
  "fst (implement_phase \<lparr>verbose = False, dry_run = False\<rparr> no_files ''plan.md''
          \<lparr>number = 1, name = ''Setup'', content = ''done'', is_completed = True\<rparr> []) = Inr True
   \<and> agent_calls (snd (implement_phase \<lparr>verbose = False, dry_run = False\<rparr> no_files ''plan.md''
          \<lparr>number = 1, name = ''Setup'', content = ''done'', is_completed = True\<rparr> [])) = []
   \<and> template_loads (snd (implement_phase \<lparr>verbose = False, dry_run = False\<rparr> no_files ''plan.md''
          \<lparr>number = 1, name = ''Setup'', content = ''done'', is_completed = True\<rparr> [])) = []"
  using completed_phase_makes_no_call
    [of "\<lparr>number = 1, name = ''Setup'', content = ''done'', is_completed = True\<rparr>"
        "\<lparr>verbose = False, dry_run = False\<rparr>" no_files "''plan.md''" "[]"]
  by (simp add: agent_calls_def template_loads_def)

text \<open>
  Claim C8.  In dry-run mode the driver, on a phase that is not completed, calls neither
  the agent nor the template loader (so a missing template cannot raise), returns Success
  and logs the action it would have taken.
\<close>

theorem dry_run_makes_no_call:
  assumes "dry_run self" and "\<not> is_completed phase"
  shows "implement_phase self w plan_path phase tr =
      (Inr True,
       tr @ [Log INFO (''Implementing Phase '' @ py_str (number phase) @ '': '' @ name phase),
             Log INFO (''[DRY RUN] Would implement phase '' @ py_str (number phase))])
    \<and> agent_calls (snd (implement_phase self w plan_path phase tr)) = agent_calls tr
    \<and> template_loads (snd (implement_phase self w plan_path phase tr)) = template_loads tr"
  using assms by (simp add: implement_phase_def agent_calls_def template_loads_def Let_def)

theorem dry_run_makes_no_call_witness:
  "implement_phase \<lparr>verbose = False, dry_run = True\<rparr> no_files ''plan.md''
      \<lparr>number = 2, name = ''Build'', content = ''todo'', is_completed = False\<rparr> [] =
     (Inr True, [Log INFO ''Implementing Phase 2: Build'',
                 Log INFO ''[DRY RUN] Would implement phase 2''])
   \<and> fst (load_slash_command no_files ''implement_plan'' []) =
       Inl (FileNotFoundError ''Slash command not found: implement_plan'')"
proof -
  have s: "py_str 2 = ''2''" by code_simp
  show ?thesis
  using dry_run_makes_no_call
    [of "\<lparr>verbose = False, dry_run = True\<rparr>"
        "\<lparr>number = 2, name = ''Build'', content = ''todo'', is_completed = False\<rparr>"
        no_files "''plan.md''" "[]"]
  by (simp add: s load_slash_command_def find_command_def no_files_def)
qed

text \<open>
  Claim C3.  A text chunk yields SUCCESS exactly when it contains both \<open>Phase\<close> and
  \<open>Complete\<close>, and MANUAL_VERIFICATION_PENDING exactly when it contains
  \<open>Ready for Manual Verification\<close>; a chunk raises the flag \<open>success\<close> when it yields a
  signal and leaves it as it is otherwise.  For a phase that is not completed, in live
  mode with the template found, the agent is called once, with the prompt built from the
  template, and the verdict is Success when some chunk of its stream yields a signal and
  Failure when none does.
\<close>

theorem stream_signals_decide_verdict:
  assumes "\<not> is_completed phase" and "\<not> dry_run self"
    and "find_command w ''implement_plan'' = Some file_text"
  shows "fst (implement_phase self w plan_path phase tr) =
      Inr (\<exists>c \<in> set (text_chunks
                 (query w (build_prompt (strip_frontmatter file_text) plan_path phase))).
             chunk_signals c \<noteq> [])
    \<and> agent_calls (snd (implement_phase self w plan_path phase tr)) =
        agent_calls tr @ [Query (build_prompt (strip_frontmatter file_text) plan_path phase)
                            ''bypassPermissions'']
    \<and> (\<forall>chunk success t.
          fst (scan_text self chunk (success, t)) = (success \<or> chunk_signals chunk \<noteq> []))
    \<and> (\<forall>chunk. (sublist ''Phase'' chunk \<and> sublist ''Complete'' chunk
                    \<longleftrightarrow> SUCCESS \<in> set (chunk_signals chunk))
          \<and> (sublist ''Ready for Manual Verification'' chunk
                    \<longleftrightarrow> MANUAL_VERIFICATION_PENDING \<in> set (chunk_signals chunk)))"
proof -
  from implement_phase_live [OF assms, of plan_path] obtain ev where
    ev: "list_all is_output ev"
    "\<And>tr. implement_phase self w plan_path phase tr =
        (Inr (\<exists>c \<in> set (text_chunks
                 (query w (build_prompt (strip_frontmatter file_text) plan_path phase))).
               chunk_signals c \<noteq> []),
         tr @ [Log INFO (''Implementing Phase '' @ py_str (number phase) @ '': '' @ name phase),
               LoadSlashCommand ''implement_plan'',
               Query (build_prompt (strip_frontmatter file_text) plan_path phase)
                 ''bypassPermissions''] @ ev)"
    by blast
  have a: "fst (implement_phase self w plan_path phase tr) =
      Inr (\<exists>c \<in> set (text_chunks
                 (query w (build_prompt (strip_frontmatter file_text) plan_path phase))).
             chunk_signals c \<noteq> [])"
    by (simp add: ev(2))
  have b: "agent_calls (snd (implement_phase self w plan_path phase tr)) =
        agent_calls tr @ [Query (build_prompt (strip_frontmatter file_text) plan_path phase)
                            ''bypassPermissions'']"
    using output_only [OF ev(1)]
    by (simp add: ev(2) agent_calls_append agent_calls_Cons)
  have c: "fst (scan_text self chunk (success, t)) = (success \<or> chunk_signals chunk \<noteq> [])"
    for chunk success t
    using scan_text_eq [of self chunk] by auto
  have d: "(sublist ''Phase'' chunk \<and> sublist ''Complete'' chunk
                    \<longleftrightarrow> SUCCESS \<in> set (chunk_signals chunk))
          \<and> (sublist ''Ready for Manual Verification'' chunk
                    \<longleftrightarrow> MANUAL_VERIFICATION_PENDING \<in> set (chunk_signals chunk))" for chunk
    by (simp add: chunk_signals_def)
  from a b c d show ?thesis by blast
qed

theorem stream_signals_decide_verdict_witness:
  "fst (implement_phase \<lparr>verbose = False, dry_run = False\<rparr> three_phase_world ''plan.md''
          setup_phase []) = Inr True
   \<and> fst (implement_phase \<lparr>verbose = False, dry_run = False\<rparr> three_phase_world ''plan.md''
          build_phase []) = Inr False
   \<and> chunk_signals ''Phase 1 Complete'' = [SUCCESS]
   \<and> chunk_signals ''Ready for Manual Verification'' = [MANUAL_VERIFICATION_PENDING]
   \<and> chunk_signals ''I could not finish.'' = []"
proof -
  let ?self = "\<lparr>verbose = False, dry_run = False\<rparr>"
  have f: "find_command three_phase_world ''implement_plan'' = Some ''Implement the phase.''"
    by code_simp
  have s: "\<not> is_completed setup_phase" "\<not> is_completed build_phase" "\<not> dry_run ?self"
    by (simp_all add: setup_phase_def build_phase_def)
  have q1: "(\<exists>c \<in> set (text_chunks (query three_phase_world
         (build_prompt (strip_frontmatter ''Implement the phase.'') ''plan.md'' setup_phase))).
             chunk_signals c \<noteq> []) = True"
    by code_simp
  have q2: "(\<exists>c \<in> set (text_chunks (query three_phase_world
         (build_prompt (strip_frontmatter ''Implement the phase.'') ''plan.md'' build_phase))).
             chunk_signals c \<noteq> []) = False"
    by code_simp
  have c: "chunk_signals ''Phase 1 Complete'' = [SUCCESS]"
    "chunk_signals ''Ready for Manual Verification'' = [MANUAL_VERIFICATION_PENDING]"
    "chunk_signals ''I could not finish.'' = []"
    by code_simp+
  show ?thesis
    using stream_signals_decide_verdict [OF s(1) s(3) f, of "''plan.md''" "[]"]
      stream_signals_decide_verdict [OF s(2) s(3) f, of "''plan.md''" "[]"]
    unfolding q1 q2 by (simp add: c)
qed

section \<open>Properties of the run controller\<close>

text \<open>
  Claim C4.  When the filtered list is \<open>pre @ p # post\<close>, the driver succeeds on each
  phase of \<open>pre\<close> and fails on \<open>p\<close>, the run ends without an exception and the driver has
  been called on \<open>pre\<close> and \<open>p\<close> in this order and on no phase of \<open>post\<close>; the calls of
  the agent are those the driver makes for \<open>pre\<close> and \<open>p\<close>.
\<close>

theorem failure_stops_the_run:
  assumes "parse_plan w plan_path = Inr parsed"
    and "filter_phases start_phase end_phase parsed = pre @ p # post"
    and "\<forall>q \<in> set pre. verdict self w plan_path q = Inr True"
    and "verdict self w plan_path p = Inr False"
  shows "fst (run_full_implementation self w plan_path start_phase end_phase tr) = Inr ()
    \<and> implemented (snd (run_full_implementation self w plan_path start_phase end_phase tr))
        = implemented tr @ pre @ [p]
    \<and> agent_calls (snd (run_full_implementation self w plan_path start_phase end_phase tr))
        = agent_calls tr
          @ concat (map (\<lambda>q. agent_calls (driver_events self w plan_path q)) (pre @ [p]))"
proof -
  have ne: "parsed \<noteq> []"
    using assms(2) by (auto simp add: filter_phases_def Let_def split: if_splits)
  let ?tr1 = "tr @ [Log INFO (''Found '' @ py_str (int (length parsed)) @ '' phases in plan'')]"
  obtain r tr2 where run:
    "run_phases self w plan_path (pre @ p # post) (pre @ p # post) ?tr1 = (r, tr2)"
    by (cases "run_phases self w plan_path (pre @ p # post) (pre @ p # post) ?tr1")
  from run_phases_stops [OF assms(3) assms(4), of "pre @ p # post" post ?tr1]
  have r: "r = Inr ()"
    and i: "implemented tr2 = implemented tr @ pre @ [p]"
    and a: "agent_calls tr2 = agent_calls tr
          @ concat (map (\<lambda>q. agent_calls (driver_events self w plan_path q)) (pre @ [p]))"
    unfolding run
    by (simp_all add: implemented_append agent_calls_append agent_calls_Cons agent_calls_Nil)
  have "run_full_implementation self w plan_path start_phase end_phase tr =
      (Inr (), tr2 @ [Log INFO (CHR 0x0A # replicate 60 CHR ''=''),
                      Log INFO ''Implementation complete!''])"
    apply (unfold run_full_implementation_def Let_def assms(1) sum.case)
    apply (unfold assms(2) run r)
    apply (simp add: ne)
    done
  then show ?thesis
    by (simp add: i a implemented_append agent_calls_append agent_calls_Cons agent_calls_Nil)
qed

theorem failure_stops_the_run_witness:
  "implemented (snd (run_full_implementation \<lparr>verbose = False, dry_run = False\<rparr>
      three_phase_world ''plan.md'' None None [])) = [setup_phase, build_phase]
   \<and> agent_calls (snd (run_full_implementation \<lparr>verbose = False, dry_run = False\<rparr>
      three_phase_world ''plan.md'' None None [])) =
       [Query ''Implement the phase.\<newline>\<newline>Plan: plan.md\<newline>Phase: 1'' ''bypassPermissions'',
        Query ''Implement the phase.\<newline>\<newline>Plan: plan.md\<newline>Phase: 2'' ''bypassPermissions'']"
proof -
  let ?self = "\<lparr>verbose = False, dry_run = False\<rparr>"
  have p: "parse_plan three_phase_world ''plan.md'' = Inr [setup_phase, build_phase, ship_phase]"
    by code_simp
  have f: "filter_phases None None [setup_phase, build_phase, ship_phase]
      = [setup_phase] @ build_phase # [ship_phase]"
    by (simp add: filter_phases_def)
  have v1: "\<forall>q \<in> set [setup_phase]. verdict ?self three_phase_world ''plan.md'' q = Inr True"
    by code_simp
  have v2: "verdict ?self three_phase_world ''plan.md'' build_phase = Inr False"
    by code_simp
  have d1: "agent_calls (driver_events ?self three_phase_world ''plan.md'' setup_phase) =
      [Query ''Implement the phase.\<newline>\<newline>Plan: plan.md\<newline>Phase: 1'' ''bypassPermissions'']"
    by code_simp
  have d2: "agent_calls (driver_events ?self three_phase_world ''plan.md'' build_phase) =
      [Query ''Implement the phase.\<newline>\<newline>Plan: plan.md\<newline>Phase: 2'' ''bypassPermissions'']"
    by code_simp
  show ?thesis
    using failure_stops_the_run [OF p f v1 v2, of "[]"]
    by (simp add: d1 d2 agent_calls_Nil)
qed

text \<open>
  Claim C7 as stated fails: on a plan that lists phase 2 before phase 1 the driver is
  called on phase 2 first.
\<close>

theorem document_order_counterexample:
  "map number (implemented (snd (run_full_implementation \<lparr>verbose = False, dry_run = True\<rparr>
      reversed_world ''plan.md'' None None []))) = [2, 1]
   \<and> \<not> sorted [2, 1 :: int]"
  by code_simp

text \<open>The filter keeps the order of the list.\<close>

lemma filter_phases_subseq: "subseq (filter_phases start_phase end_phase phases) phases"
  by (simp add: filter_phases_def Let_def)

text \<open>
  Claim C7, amended.  The phases are executed in the order of the document: the phases
  the driver is called on are an initial segment of the filtered list, which keeps the
  phases of the parsed list in their order, and the whole of it when the driver succeeds
  on every phase.  The number of a phase only decides whether it is selected.
\<close>

theorem phases_run_in_document_order:
  assumes "parse_plan w plan_path = Inr parsed"
  shows "(\<exists>k. implemented (snd (run_full_implementation self w plan_path start_phase end_phase tr))
           = implemented tr @ take k (filter_phases start_phase end_phase parsed))
    \<and> subseq (filter_phases start_phase end_phase parsed) parsed
    \<and> ((\<forall>q \<in> set (filter_phases start_phase end_phase parsed).
           verdict self w plan_path q = Inr True) \<longrightarrow>
         implemented (snd (run_full_implementation self w plan_path start_phase end_phase tr))
           = implemented tr @ filter_phases start_phase end_phase parsed)"
proof (cases "parsed = []")
  case True
  have "run_full_implementation self w plan_path start_phase end_phase tr =
      (Inr (), tr @ [Log ERROR ''No phases found in plan''])"
    by (simp add: run_full_implementation_def assms True)
  moreover have "filter_phases start_phase end_phase parsed = []"
    by (simp add: True filter_phases_def)
  ultimately show ?thesis by (simp add: implemented_append)
next
  case False
  let ?sel = "filter_phases start_phase end_phase parsed"
  let ?tr1 = "tr @ [Log INFO (''Found '' @ py_str (int (length parsed)) @ '' phases in plan'')]"
  obtain r tr2 where run: "run_phases self w plan_path ?sel ?sel ?tr1 = (r, tr2)"
    by (cases "run_phases self w plan_path ?sel ?sel ?tr1")
  have full: "implemented (snd (run_full_implementation self w plan_path start_phase end_phase tr))
      = implemented tr2"
    unfolding run_full_implementation_def Let_def assms sum.case run
    by (cases r) (simp_all add: False implemented_append)
  obtain k where k: "implemented tr2 = implemented tr @ take k ?sel"
    using run_phases_order [of self w plan_path ?sel ?sel ?tr1]
    unfolding run by (auto simp add: implemented_append)
  have all: "implemented tr2 = implemented tr @ ?sel"
    if "\<forall>q \<in> set ?sel. verdict self w plan_path q = Inr True"
    using run_phases_all [OF that, of ?sel ?tr1]
    unfolding run by (simp add: implemented_append)
  from k all show ?thesis
    unfolding full using filter_phases_subseq by blast
qed

theorem phases_run_in_document_order_witness:
  "implemented (snd (run_full_implementation \<lparr>verbose = False, dry_run = True\<rparr>
      reversed_world ''plan.md'' None None []))
    = [\<lparr>number = 2, name = ''Build'', content = '''', is_completed = True\<rparr>,
       \<lparr>number = 1, name = ''Setup'', content = '''', is_completed = True\<rparr>]"
proof -
  let ?self = "\<lparr>verbose = False, dry_run = True\<rparr>"
  let ?ps = "[\<lparr>number = 2, name = ''Build'', content = '''', is_completed = True\<rparr>,
       \<lparr>number = 1, name = ''Setup'', content = '''', is_completed = True\<rparr>]"
  have p: "parse_plan reversed_world ''plan.md'' = Inr ?ps"
    by code_simp
  have f: "filter_phases None None ?ps = ?ps"
    by (simp add: filter_phases_def)
  have v: "\<forall>q \<in> set ?ps. verdict ?self reversed_world ''plan.md'' q = Inr True"
    by (simp add: verdict_def implement_phase_def)
  show ?thesis
    using phases_run_in_document_order [OF p, of ?self None None "[]"] v
    unfolding f by simp
qed

text \<open>
  Claim C6 at \<open>end_phase = 0\<close>: on the plan of phases 1, 2 and 3 the run calls the driver
  on all three phases, though no phase has a number at most 0.  With both bounds 2 it
  calls the driver on phase 2 alone.
\<close>

theorem end_phase_zero_runs_every_phase:
  "map number (implemented (snd (run_full_implementation \<lparr>verbose = False, dry_run = True\<rparr>
      three_phase_world ''plan.md'' None (Some 0) []))) = [1, 2, 3]
   \<and> filter (\<lambda>p. number p \<le> 0) [setup_phase, build_phase, ship_phase] = []
   \<and> map number (implemented (snd (run_full_implementation \<lparr>verbose = False, dry_run = True\<rparr>
      three_phase_world ''plan.md'' (Some 2) (Some 2) []))) = [2]"
  by code_simp

text \<open>With bounds that are absent or not 0 the filter selects the inclusive range.\<close>

lemma filter_phases_nonzero:
  assumes "start_phase \<noteq> Some 0" and "end_phase \<noteq> Some 0"
  shows "filter_phases start_phase end_phase phases =
     filter (\<lambda>p. (case start_phase of None \<Rightarrow> True | Some a \<Rightarrow> a \<le> number p)
               \<and> (case end_phase of None \<Rightarrow> True | Some b \<Rightarrow> number p \<le> b)) phases"
  using assms by (cases start_phase; cases end_phase) (simp_all add: filter_phases_def)

text \<open>What a whole run calls the driver on, from the loop.\<close>

lemma run_full_implemented:
  assumes "parse_plan w plan_path = Inr parsed"
  shows "(\<exists>k. implemented (snd (run_full_implementation self w plan_path start_phase end_phase tr))
           = implemented tr @ take k (filter_phases start_phase end_phase parsed))
    \<and> ((\<forall>q \<in> set (filter_phases start_phase end_phase parsed).
           verdict self w plan_path q = Inr True) \<longrightarrow>
         implemented (snd (run_full_implementation self w plan_path start_phase end_phase tr))
           = implemented tr @ filter_phases start_phase end_phase parsed)"
proof (cases "parsed = []")
  case True
  have "run_full_implementation self w plan_path start_phase end_phase tr =
      (Inr (), tr @ [Log ERROR ''No phases found in plan''])"
    by (simp add: run_full_implementation_def assms True)
  moreover have "filter_phases start_phase end_phase parsed = []"
    by (simp add: True filter_phases_def)
  ultimately show ?thesis by (simp add: implemented_append)
next
  case False
  let ?sel = "filter_phases start_phase end_phase parsed"
  let ?tr1 = "tr @ [Log INFO (''Found '' @ py_str (int (length parsed)) @ '' phases in plan'')]"
  obtain r tr2 where run: "run_phases self w plan_path ?sel ?sel ?tr1 = (r, tr2)"
    by (cases "run_phases self w plan_path ?sel ?sel ?tr1")
  have full: "implemented (snd (run_full_implementation self w plan_path start_phase end_phase tr))
      = implemented tr2"
    unfolding run_full_implementation_def Let_def assms sum.case run
    by (cases r) (simp_all add: False implemented_append)
  obtain k where k: "implemented tr2 = implemented tr @ take k ?sel"
    using run_phases_order [of self w plan_path ?sel ?sel ?tr1]
    unfolding run by (auto simp add: implemented_append)
  have all: "implemented tr2 = implemented tr @ ?sel"
    if "\<forall>q \<in> set ?sel. verdict self w plan_path q = Inr True"
    using run_phases_all [OF that, of ?sel ?tr1]
    unfolding run by (simp add: implemented_append)
  from k all show ?thesis
    unfolding full by blast
qed

text \<open>
  Claim C10.  A bound equal to 0 is treated as absent: a run with \<open>end_phase = 0\<close> is the
  run with no end bound, a run with \<open>start_phase = 0\<close> is the run with no start bound, and
  no phase is filtered out, where the bound read as a number would leave no phase of a
  plan whose numbers are all positive.  So with a bound of 0 on either side, or on both,
  the driver is called on the parsed phases in their order, from the first on, with none
  left out: on an initial segment of the parsed list, and on every parsed phase when the
  driver succeeds on each.
\<close>

theorem zero_bound_is_absent:
  "run_full_implementation self w plan_path start_phase (Some 0) tr =
     run_full_implementation self w plan_path start_phase None tr
   \<and> run_full_implementation self w plan_path (Some 0) end_phase tr =
     run_full_implementation self w plan_path None end_phase tr
   \<and> filter_phases None (Some 0) phases = phases
   \<and> filter_phases (Some 0) None phases = phases
   \<and> ((\<forall>p \<in> set phases. 0 < number p) \<longrightarrow> filter (\<lambda>p. number p \<le> 0) phases = [])
   \<and> (\<forall>parsed s e.
         parse_plan w plan_path = Inr parsed
         \<and> (s = None \<or> s = Some 0) \<and> (e = None \<or> e = Some 0)
         \<longrightarrow> (\<exists>k. implemented (snd (run_full_implementation self w plan_path s e tr))
                    = implemented tr @ take k parsed)
             \<and> ((\<forall>q \<in> set parsed. verdict self w plan_path q = Inr True) \<longrightarrow>
                  fst (run_full_implementation self w plan_path s e tr) = Inr ()
                  \<and> implemented (snd (run_full_implementation self w plan_path s e tr))
                      = implemented tr @ parsed))"
proof -
  have e: "filter_phases s (Some 0) ps = filter_phases s None ps" for s ps
    by (simp add: filter_phases_def)
  have b: "filter_phases (Some 0) e ps = filter_phases None e ps" for e ps
    by (simp add: filter_phases_def)
  have first: "run_full_implementation self w plan_path start_phase (Some 0) tr =
     run_full_implementation self w plan_path start_phase None tr
   \<and> run_full_implementation self w plan_path (Some 0) end_phase tr =
     run_full_implementation self w plan_path None end_phase tr
   \<and> filter_phases None (Some 0) phases = phases
   \<and> filter_phases (Some 0) None phases = phases
   \<and> ((\<forall>p \<in> set phases. 0 < number p) \<longrightarrow> filter (\<lambda>p. number p \<le> 0) phases = [])"
    unfolding run_full_implementation_def e b
    by (simp add: filter_phases_def filter_empty_conv not_le)
  have second: "(\<exists>k. implemented (snd (run_full_implementation self w plan_path s e tr))
                    = implemented tr @ take k parsed)
             \<and> ((\<forall>q \<in> set parsed. verdict self w plan_path q = Inr True) \<longrightarrow>
                  fst (run_full_implementation self w plan_path s e tr) = Inr ()
                  \<and> implemented (snd (run_full_implementation self w plan_path s e tr))
                      = implemented tr @ parsed)"
    if p: "parse_plan w plan_path = Inr parsed"
      and s: "s = None \<or> s = Some 0" and e: "e = None \<or> e = Some 0"
    for parsed s e
  proof -
    have sel: "filter_phases s e parsed = parsed"
      using s e by (auto simp add: filter_phases_def)
    have ok: "fst (run_full_implementation self w plan_path s e tr) = Inr ()"
      if all: "\<forall>q \<in> set parsed. verdict self w plan_path q = Inr True"
    proof (cases "parsed = []")
      case True
      then show ?thesis by (simp add: run_full_implementation_def p)
    next
      case False
      let ?tr1 = "tr @ [Log INFO (''Found '' @ py_str (int (length parsed))
                                    @ '' phases in plan'')]"
      obtain r tr2 where run: "run_phases self w plan_path parsed parsed ?tr1 = (r, tr2)"
        by (cases "run_phases self w plan_path parsed parsed ?tr1")
      have "r = Inr ()"
        using run_phases_all [OF all, of parsed ?tr1] unfolding run by simp
      then show ?thesis
        unfolding run_full_implementation_def Let_def p sum.case sel run
        by (simp add: False)
    qed
    from run_full_implemented [OF p, of self s e tr] ok show ?thesis
      unfolding sel by blast
  qed
  from first second show ?thesis by blast
qed

theorem zero_bound_is_absent_witness:
  "run_full_implementation \<lparr>verbose = False, dry_run = True\<rparr> three_phase_world ''plan.md''
      None (Some 0) [] =
     run_full_implementation \<lparr>verbose = False, dry_run = True\<rparr> three_phase_world ''plan.md''
      None None []
   \<and> filter_phases None (Some 0) [setup_phase, build_phase, ship_phase]
       = [setup_phase, build_phase, ship_phase]
   \<and> filter (\<lambda>p. number p \<le> 0) [setup_phase, build_phase, ship_phase] = []
   \<and> implemented (snd (run_full_implementation \<lparr>verbose = False, dry_run = True\<rparr>
         three_phase_world ''plan.md'' None (Some 0) []))
       = [setup_phase, build_phase, ship_phase]
   \<and> implemented (snd (run_full_implementation \<lparr>verbose = False, dry_run = True\<rparr>
         three_phase_world ''plan.md'' (Some 0) None []))
       = [setup_phase, build_phase, ship_phase]"
proof -
  let ?self = "\<lparr>verbose = False, dry_run = True\<rparr>"
  let ?ps = "[setup_phase, build_phase, ship_phase]"
  have pos: "\<forall>p \<in> set ?ps. 0 < number p"
    by (simp add: setup_phase_def build_phase_def ship_phase_def)
  have p: "parse_plan three_phase_world ''plan.md'' = Inr ?ps"
    by code_simp
  have v: "\<forall>q \<in> set ?ps. verdict ?self three_phase_world ''plan.md'' q = Inr True"
    by code_simp
  note t = zero_bound_is_absent [of ?self three_phase_world "''plan.md''" None "[]" None ?ps]
  from t pos have a: "run_full_implementation ?self three_phase_world ''plan.md'' None (Some 0) [] =
     run_full_implementation ?self three_phase_world ''plan.md'' None None []
   \<and> filter_phases None (Some 0) ?ps = ?ps
   \<and> filter (\<lambda>p. number p \<le> 0) ?ps = []"
    by blast
  from t have r: "\<forall>parsed s e.
         parse_plan three_phase_world ''plan.md'' = Inr parsed
         \<and> (s = None \<or> s = Some 0) \<and> (e = None \<or> e = Some 0)
         \<longrightarrow> ((\<forall>q \<in> set parsed. verdict ?self three_phase_world ''plan.md'' q = Inr True) \<longrightarrow>
                  implemented (snd (run_full_implementation ?self three_phase_world
                      ''plan.md'' s e []))
                      = implemented [] @ parsed)"
    by blast
  have b: "implemented (snd (run_full_implementation ?self three_phase_world ''plan.md''
      None (Some 0) [])) = ?ps"
    using r [rule_format, of ?ps None "Some 0"] p v by simp
  have c: "implemented (snd (run_full_implementation ?self three_phase_world ''plan.md''
      (Some 0) None [])) = ?ps"
    using r [rule_format, of ?ps "Some 0" None] p v by simp
  from a b c show ?thesis by blast
qed

section \<open>The matcher on the patterns of the script\<close>

text \<open>Whether a pattern matches does not depend on the captures the matcher starts with.\<close>


lemma re_match_caps_None:
  "re_match p s k = None \<Longrightarrow> re_match p s k' = None"
proof (induction p s k arbitrary: k' rule: re_match.induct)
  case (1 s k)
  then show ?case by simp
next
  case (2 a r s k)
  show ?case
  proof (cases s)
    case Nil
    then show ?thesis by simp
  next
    case (Cons c cs)
    show ?thesis
    proof (cases "atom_ok a c")
      case True
      from "2.prems" Cons True have "re_match r cs (consume c k) = None" by simp
      from "2.IH" [OF Cons True this] have "re_match r cs (consume c k') = None" .
      then show ?thesis using Cons True by simp
    next
      case False
      then show ?thesis using Cons by simp
    qed
  qed
next
  case (3 a r s k)
  show ?case
  proof (cases s)
    case Nil
    with 3 show ?thesis by simp
  next
    case (Cons c cs)
    show ?thesis
    proof (cases "atom_ok a c")
      case True
      from "3.prems" Cons True have a: "re_match (Star a # r) cs (consume c k) = None"
        and b: "re_match r s k = None"
        by (auto split: option.splits)
      have a': "re_match (Star a # r) cs (consume c k') = None"
        using "3.IH"(1) [OF Cons True a] .
      have b': "re_match r s k' = None"
        using "3.IH"(2) [OF _ b] Cons True a by simp
      show ?thesis using Cons True a' b' by simp
    next
      case False
      from "3.prems" Cons False have b: "re_match r s k = None" by simp
      have "re_match r s k' = None"
        using "3.IH"(2) [OF _ b] Cons False by simp
      then show ?thesis using Cons False by simp
    qed
  qed
next
  case (4 a r s k)
  show ?case
  proof (cases s)
    case Nil
    then show ?thesis by simp
  next
    case (Cons c cs)
    show ?thesis
    proof (cases "atom_ok a c")
      case True
      from "4.prems" Cons True have "re_match (Star a # r) cs (consume c k) = None" by simp
      from "4.IH" [OF Cons True this] have "re_match (Star a # r) cs (consume c k') = None" .
      then show ?thesis using Cons True by simp
    next
      case False
      then show ?thesis using Cons by simp
    qed
  qed
next
  case (5 a r s k)
  from "5.prems" have b: "re_match r s k = None"
    by (auto split: option.splits)
  have b': "re_match r s k' = None" using "5.IH"(1) [OF b] .
  show ?case
  proof (cases s)
    case Nil
    with b' show ?thesis by simp
  next
    case (Cons c cs)
    show ?thesis
    proof (cases "atom_ok a c")
      case True
      from "5.prems" b Cons True have a: "re_match (LazyStar a # r) cs (consume c k) = None"
        by simp
      have "re_match (LazyStar a # r) cs (consume c k') = None"
        using "5.IH"(2) [OF b Cons True a] .
      then show ?thesis using Cons True b' by simp
    next
      case False
      then show ?thesis using Cons b' by simp
    qed
  qed
next
  case (6 a r s k)
  show ?case
  proof (cases s)
    case Nil
    then show ?thesis by simp
  next
    case (Cons c cs)
    show ?thesis
    proof (cases "atom_ok a c")
      case True
      from "6.prems" Cons True have "re_match (LazyStar a # r) cs (consume c k) = None" by simp
      from "6.IH" [OF Cons True this] have "re_match (LazyStar a # r) cs (consume c k') = None" .
      then show ?thesis using Cons True by simp
    next
      case False
      then show ?thesis using Cons by simp
    qed
  qed
next
  case (7 r s k)
  from "7.prems" have "re_match r s (fst k, Some []) = None" by simp
  from "7.IH" [OF this] have "re_match r s (fst k', Some []) = None" .
  then show ?case by simp
next
  case (8 r s k)
  have "re_match r s k2 = None" for k2
  proof (cases "snd k")
    case None
    with "8.prems" have "re_match r s k = None" by simp
    from "8.IH"(1) [OF None this] show ?thesis .
  next
    case (Some g)
    with "8.prems" have "re_match r s (fst k @ [g], None) = None" by simp
    from "8.IH"(2) [OF Some this] show ?thesis .
  qed
  then show ?case by (cases "snd k'") simp_all
next
  case (9 r s k)
  show ?case
  proof (cases "s = [] \<or> s = [CHR 0x0A]")
    case True
    with "9.prems" have "re_match r s k = None" by simp
    from "9.IH" [OF True this] have "re_match r s k' = None" .
    with True show ?thesis by simp
  next
    case False
    then show ?thesis by simp
  qed
qed

text \<open>Hence the rules of \<open>re_matches\<close>, one for each item of a pattern.\<close>

lemma re_match_caps: "(re_match p s k = None) = (\<not> re_matches p s)"
  unfolding re_matches_def
  using re_match_caps_None [of p s k "([], None)"] re_match_caps_None [of p s "([], None)" k]
  by auto

lemma re_matches_Nil: "re_matches [] s"
  by (simp add: re_matches_def)

lemma re_matches_One:
  "re_matches (One a # r) s = (case s of [] \<Rightarrow> False | c # cs \<Rightarrow> atom_ok a c \<and> re_matches r cs)"
proof (cases s)
  case Nil
  then show ?thesis by (simp add: re_matches_def)
next
  case (Cons c cs)
  have "(re_match (One a # r) s ([], None) = None) =
      (\<not> (atom_ok a c \<and> re_match r cs (consume c ([], None)) \<noteq> None))"
    unfolding Cons by simp
  then show ?thesis
    unfolding re_match_caps Cons list.case by blast
qed

lemma re_matches_Star:
  "re_matches (Star a # r) s =
     ((case s of [] \<Rightarrow> False | c # cs \<Rightarrow> atom_ok a c \<and> re_matches (Star a # r) cs)
      \<or> re_matches r s)"
proof (cases s)
  case Nil
  then show ?thesis by (simp add: re_matches_def)
next
  case (Cons c cs)
  have "(re_match (Star a # r) s ([], None) = None) =
      (\<not> ((atom_ok a c \<and> re_match (Star a # r) cs (consume c ([], None)) \<noteq> None)
        \<or> re_match r s ([], None) \<noteq> None))"
    unfolding Cons
    by (subst re_match.simps) (simp del: re_match.simps split: option.splits)
  then show ?thesis
    unfolding re_match_caps Cons list.case by blast
qed

lemma re_matches_Plus:
  "re_matches (Plus a # r) s =
     (case s of [] \<Rightarrow> False | c # cs \<Rightarrow> atom_ok a c \<and> re_matches (Star a # r) cs)"
proof (cases s)
  case Nil
  then show ?thesis by (simp add: re_matches_def)
next
  case (Cons c cs)
  have "(re_match (Plus a # r) s ([], None) = None) =
      (\<not> (atom_ok a c \<and> re_match (Star a # r) cs (consume c ([], None)) \<noteq> None))"
    unfolding Cons
    by (subst re_match.simps) (simp del: re_match.simps)
  then show ?thesis
    unfolding re_match_caps Cons list.case by blast
qed

lemma re_matches_GroupOpen: "re_matches (GroupOpen # r) s = re_matches r s"
proof -
  have "(re_match (GroupOpen # r) s ([], None) = None) = (re_match r s ([], Some []) = None)"
    by simp
  then show ?thesis
    unfolding re_match_caps by simp
qed

lemma re_matches_GroupClose: "re_matches (GroupClose # r) s = re_matches r s"
  unfolding re_matches_def by simp

text \<open>Whitespace, then a character that is not whitespace: the repetition takes it all.\<close>

lemma spaces_then_literal:
  assumes "\<not> is_space d"
  shows "re_matches (Star Space # One (Lit d) # r) s =
     (case dropWhile is_space s of [] \<Rightarrow> False | c # cs \<Rightarrow> c = d \<and> re_matches r cs)"
proof (induction s)
  case Nil
  show ?case by (simp add: re_matches_Star re_matches_One)
next
  case (Cons c cs)
  show ?case
  proof (cases "is_space c")
    case True
    with assms have "c \<noteq> d" by auto
    with True Cons show ?thesis
      by (subst re_matches_Star) (simp add: re_matches_One)
  next
    case False
    then show ?thesis
      by (subst re_matches_Star) (simp add: re_matches_One)
  qed
qed

text \<open>The end of the pattern, \<open>\s*(.+)\<close>, on a text with no newline: any character will do.\<close>

lemma item_text_matches:
  assumes "CHR 0x0A \<notin> set s"
  shows "re_matches [Star Space, GroupOpen, Plus Dot, GroupClose] s = (s \<noteq> [])"
proof (cases s)
  case Nil
  then show ?thesis
    by (simp add: re_matches_Star re_matches_GroupOpen re_matches_Plus)
next
  case (Cons c cs)
  with assms have "c \<noteq> CHR 0x0A" by auto
  moreover have "re_matches [Star Dot, GroupClose] cs"
    by (subst re_matches_Star) (simp add: re_matches_GroupClose re_matches_Nil)
  ultimately have "re_matches [GroupOpen, Plus Dot, GroupClose] s"
    using Cons by (simp add: re_matches_GroupOpen re_matches_Plus)
  then show ?thesis
    using Cons by (subst re_matches_Star) simp
qed

lemma not_space_punctuation:
  "\<not> is_space CHR ''-''" "\<not> is_space CHR ''[''" "\<not> is_space CHR '']''"
  by (simp_all add: is_space_def)

lemma no_newline_after_spaces:
  assumes "CHR 0x0A \<notin> set s" and "dropWhile is_space s = c # r"
  shows "CHR 0x0A \<notin> set r"
proof -
  have "set (c # r) \<subseteq> set s"
    using set_dropWhileD [of _ is_space s] assms(2) by auto
  with assms(1) show ?thesis by auto
qed

text \<open>The pattern of unchecked items on a line.\<close>

lemma unchecked_pattern_item:
  assumes "CHR 0x0A \<notin> set line"
  shows "re_matches unchecked_pattern line = unchecked_item line"
proof -
  let ?p3 = "[Star Space, GroupOpen, Plus Dot, GroupClose]"
  let ?p2 = "Star Space # One (Lit CHR '']'') # ?p3"
  let ?p1 = "Star Space # One (Lit CHR ''['') # ?p2"
  have s1: "re_matches unchecked_pattern s =
      (case dropWhile is_space s of [] \<Rightarrow> False
       | c # cs \<Rightarrow> c = CHR ''-'' \<and> re_matches ?p1 cs)" for s
    unfolding unchecked_pattern_def
    by (rule spaces_then_literal) (rule not_space_punctuation)
  have s2: "re_matches ?p1 s =
      (case dropWhile is_space s of [] \<Rightarrow> False
       | c # cs \<Rightarrow> c = CHR ''['' \<and> re_matches ?p2 cs)" for s
    by (rule spaces_then_literal) (rule not_space_punctuation)
  have s3: "re_matches ?p2 s =
      (case dropWhile is_space s of [] \<Rightarrow> False
       | c # cs \<Rightarrow> c = CHR '']'' \<and> re_matches ?p3 cs)" for s
    by (rule spaces_then_literal) (rule not_space_punctuation)
  show ?thesis
  proof (cases "dropWhile is_space line")
    case Nil
    then show ?thesis
      by (simp only: s1 unchecked_item_def list.case)
  next
    case c1: (Cons c1 r1)
    note n1 = no_newline_after_spaces [OF assms c1]
    show ?thesis
    proof (cases "dropWhile is_space r1")
      case Nil
      with c1 show ?thesis
        by (simp only: s1 s2 unchecked_item_def list.case)
    next
      case c2: (Cons c2 r2)
      note n2 = no_newline_after_spaces [OF n1 c2]
      show ?thesis
      proof (cases "dropWhile is_space r2")
        case Nil
        with c1 c2 show ?thesis
          by (simp only: s1 s2 s3 unchecked_item_def list.case)
      next
        case c3: (Cons c3 r3)
        note n3 = no_newline_after_spaces [OF n2 c3]
        from c1 c2 c3 show ?thesis
          by (simp only: s1 s2 s3 unchecked_item_def list.case item_text_matches [OF n3])
      qed
    qed
  qed
qed

text \<open>Lines of a text, and the text of its lines.\<close>

lemma split_lines_not_Nil: "split_lines s \<noteq> []"
  by (induction s) (auto split: list.splits)

lemma split_lines_no_newline: "l \<in> set (split_lines s) \<Longrightarrow> CHR 0x0A \<notin> set l"
proof (induction s arbitrary: l)
  case Nil
  then show ?case by simp
next
  case (Cons c cs)
  then show ?case
    by (cases "split_lines cs") (auto split: if_splits)
qed

lemma join_split_lines: "join_lines (split_lines s) = s"
proof (induction s)
  case Nil
  show ?case by simp
next
  case (Cons c cs)
  obtain l ls where ls: "split_lines cs = l # ls"
    using split_lines_not_Nil [of cs] by (cases "split_lines cs") auto
  show ?case
  proof (cases "c = CHR 0x0A")
    case True
    with Cons ls show ?thesis by simp
  next
    case False
    with Cons ls show ?thesis by (cases ls) auto
  qed
qed

lemma split_lines_line: "CHR 0x0A \<notin> set l \<Longrightarrow> split_lines l = [l]"
  by (induction l) auto

lemma split_lines_append:
  "CHR 0x0A \<notin> set l \<Longrightarrow> split_lines (l @ CHR 0x0A # s) = l # split_lines s"
  by (induction l) auto

lemma split_join_lines:
  assumes "ls \<noteq> []" and "\<forall>l \<in> set ls. CHR 0x0A \<notin> set l"
  shows "split_lines (join_lines ls) = ls"
  using assms
proof (induction ls rule: join_lines.induct)
  case 1
  then show ?case by simp
next
  case (2 x)
  then show ?case by (simp add: split_lines_line)
next
  case (3 x y zs)
  then show ?case by (simp add: split_lines_append)
qed

section \<open>The scan of the completion check\<close>


text \<open>The state of the scan after a line.\<close>

lemma section_active_Nil: "\<not> section_active []"
  by (simp add: section_active_def)

lemma section_active_no_header:
  "\<forall>h \<in> set xs. \<not> is_section_header h \<Longrightarrow> \<not> section_active xs"
proof -
  assume "\<forall>h \<in> set xs. \<not> is_section_header h"
  then have "filter is_section_header (rev xs) = []"
    by (simp add: filter_empty_conv)
  then show ?thesis by (simp add: section_active_def)
qed

lemma section_active_Cons:
  "section_active (l # xs) =
     (if \<exists>h \<in> set xs. is_section_header h then section_active xs
      else sublist ''#### Automated Verification:'' l)"
proof (cases "\<exists>h \<in> set xs. is_section_header h")
  case True
  then have "filter is_section_header (rev xs) \<noteq> []"
    by (simp add: filter_empty_conv)
  then obtain h hs where "filter is_section_header (rev xs) = h # hs"
    by (cases "filter is_section_header (rev xs)") auto
  then show ?thesis using True by (simp add: section_active_def)
next
  case False
  then have "filter is_section_header (rev xs) = []"
    by (simp add: filter_empty_conv)
  then show ?thesis using False
    by (auto simp add: section_active_def is_section_header_def)
qed

lemma completion_scan_iff:
  assumes "\<forall>l \<in> set ls. CHR 0x0A \<notin> set l"
  shows "completion_scan ls b =
     (\<exists>i < length ls.
        (if \<exists>h \<in> set (take i ls). is_section_header h then section_active (take i ls) else b)
        \<and> \<not> is_section_header (ls ! i) \<and> unchecked_item (ls ! i))"
  using assms
proof (induction ls arbitrary: b)
  case Nil
  show ?case by simp
next
  case (Cons l ls)
  define A where "A = (\<lambda>b xs. if \<exists>h \<in> set xs. is_section_header h
                               then section_active xs else b)"
  define step where "step = (if sublist ''#### Automated Verification:'' l then True
               else if sublist ''#### Manual Verification:'' l then False else b)"
  define P where "P = (\<lambda>b ls i. A b (take i ls) \<and> \<not> is_section_header (ls ! i)
                  \<and> unchecked_item (ls ! i))"
  from Cons.prems have nl: "CHR 0x0A \<notin> set l" and rest: "\<forall>l \<in> set ls. CHR 0x0A \<notin> set l"
    by simp_all
  have item: "re_matches unchecked_pattern l = unchecked_item l"
    using unchecked_pattern_item [OF nl] .
  have A: "A b (l # xs) = A step xs" for xs
    unfolding A_def step_def
    by (auto simp add: section_active_Cons is_section_header_def)
  have P0: "P b (l # ls) 0 = (b \<and> \<not> is_section_header l \<and> unchecked_item l)"
    unfolding P_def A_def by simp
  have PS: "P b (l # ls) (Suc j) = P step ls j" for j
    unfolding P_def using A [of "take j ls"] by simp
  have split: "(\<exists>i < length (l # ls). P b (l # ls) i) =
      (P b (l # ls) 0 \<or> (\<exists>j < length ls. P step ls j))"
    unfolding PS [symmetric] by (simp add: Ex_less_Suc2)
  have scan: "completion_scan (l # ls) b =
      ((b \<and> \<not> is_section_header l \<and> unchecked_item l) \<or> completion_scan ls step)"
    unfolding step_def by (auto simp add: item is_section_header_def)
  have IH: "completion_scan ls step = (\<exists>j < length ls. P step ls j)"
    unfolding P_def A_def using Cons.IH [OF rest, of step] .
  have "completion_scan (l # ls) b = (\<exists>i < length (l # ls). P b (l # ls) i)"
    unfolding split scan IH P0 ..
  then show ?case unfolding P_def A_def .
qed

lemma completed_iff:
  "is_phase_completed c = (\<not> (\<exists>i. unchecked_in_section (split_lines c) i))"
proof -
  have nl: "\<forall>l \<in> set (split_lines c). CHR 0x0A \<notin> set l"
    using split_lines_no_newline by blast
  have "(if \<exists>h \<in> set xs. is_section_header h then section_active xs else False)
      = section_active xs" for xs
    using section_active_no_header [of xs] by auto
  then show ?thesis
    unfolding is_phase_completed_def completion_scan_iff [OF nl] unchecked_in_section_def
    by auto
qed


lemma is_space_blank: "is_space CHR '' ''"
  by (simp add: is_space_def)

lemma unchecked_item_forms:
  assumes "list_all is_space indent"
  shows "unchecked_item (indent @ ''- [ ]'' @ label) = (label \<noteq> [])"
    and "unchecked_item (indent @ ''- []'' @ label) = (label \<noteq> [])"
    and "\<not> unchecked_item (indent @ ''- [x]'' @ label)"
proof -
  have d: "dropWhile is_space (indent @ CHR ''-'' # r) = CHR ''-'' # r" for r
    using assms by (simp add: dropWhile_append list_all_iff not_space_punctuation)
  have x: "\<not> is_space CHR ''x''" by (simp add: is_space_def)
  show "unchecked_item (indent @ ''- [ ]'' @ label) = (label \<noteq> [])"
    by (simp add: unchecked_item_def d is_space_blank not_space_punctuation)
  show "unchecked_item (indent @ ''- []'' @ label) = (label \<noteq> [])"
    by (simp add: unchecked_item_def d is_space_blank not_space_punctuation)
  show "\<not> unchecked_item (indent @ ''- [x]'' @ label)"
    by (simp add: unchecked_item_def d is_space_blank not_space_punctuation x)
qed

text \<open>A text that lacks a character lies on one side of it.\<close>

lemma sublist_across:
  assumes "c \<notin> set m"
  shows "sublist m (a @ c # b) = (sublist m a \<or> sublist m b)"
proof -
  have "\<not> prefix m (c # b)" if "m \<noteq> []"
    using that assms by (cases m) auto
  then have b: "sublist m (c # b) = sublist m b"
    by (cases "m = []") (auto simp add: sublist_Cons_right)
  have "sublist m a" if "m = xs1 @ xs2" "suffix xs1 a" "prefix xs2 (c # b)" for xs1 xs2
  proof (cases xs2)
    case Nil
    with that show ?thesis by auto
  next
    case (Cons y ys)
    with that assms show ?thesis by auto
  qed
  then show ?thesis
    unfolding sublist_append b by blast
qed

lemma header_of_checked:
  "sublist ''#### Automated Verification:'' (a @ ''[x]'' @ b)
     = sublist ''#### Automated Verification:'' (a @ ''[ ]'' @ b)"
  "sublist ''#### Manual Verification:'' (a @ ''[x]'' @ b)
     = sublist ''#### Manual Verification:'' (a @ ''[ ]'' @ b)"
proof -
  have m: "sublist m (a @ CHR ''['' # y # CHR '']'' # b) = (sublist m a \<or> sublist m b)"
    if "CHR ''['' \<notin> set m" "CHR '']'' \<notin> set m" "\<not> sublist m [y]" for m y
    using sublist_across [OF that(1), of a "y # CHR '']'' # b"]
      sublist_across [OF that(2), of "[y]" b] that(3) by simp
  have s: "\<not> sublist ''#### Automated Verification:'' [y]"
    "\<not> sublist ''#### Manual Verification:'' [y]" for y
    by (simp_all add: sublist_Cons_right)
  show "sublist ''#### Automated Verification:'' (a @ ''[x]'' @ b)
     = sublist ''#### Automated Verification:'' (a @ ''[ ]'' @ b)"
    using m [of "''#### Automated Verification:''" "CHR ''x''"]
      m [of "''#### Automated Verification:''" "CHR '' ''"] s by simp
  show "sublist ''#### Manual Verification:'' (a @ ''[x]'' @ b)
     = sublist ''#### Manual Verification:'' (a @ ''[ ]'' @ b)"
    using m [of "''#### Manual Verification:''" "CHR ''x''"]
      m [of "''#### Manual Verification:''" "CHR '' ''"] s by simp
qed

text \<open>The state of the section depends on the lines through their markers only.\<close>

lemma section_active_cong:
  assumes "map (\<lambda>l. (sublist ''#### Automated Verification:'' l,
                      sublist ''#### Manual Verification:'' l)) xs
         = map (\<lambda>l. (sublist ''#### Automated Verification:'' l,
                      sublist ''#### Manual Verification:'' l)) ys"
  shows "section_active xs = section_active ys"
  using assms
proof (induction xs arbitrary: ys)
  case Nil
  then show ?case by simp
next
  case (Cons x xs)
  then obtain y ys' where ys: "ys = y # ys'" by (cases ys) auto
  from Cons.prems ys have
    h: "sublist ''#### Automated Verification:'' x = sublist ''#### Automated Verification:'' y"
    and t: "map (\<lambda>l. (sublist ''#### Automated Verification:'' l,
                      sublist ''#### Manual Verification:'' l)) xs
         = map (\<lambda>l. (sublist ''#### Automated Verification:'' l,
                      sublist ''#### Manual Verification:'' l)) ys'"
    by simp_all
  have "map is_section_header xs = map is_section_header ys'"
    using arg_cong [OF t, of "map (\<lambda>p. fst p \<or> snd p)"]
    by (simp add: is_section_header_def [abs_def] comp_def)
  then have "(\<exists>h \<in> set xs. is_section_header h) = (\<exists>h \<in> set ys'. is_section_header h)"
    by (metis (no_types, lifting) image_iff list.set_map)
  then show ?case
    unfolding ys section_active_Cons using Cons.IH [OF t] h by simp
qed

lemma section_active_has_header:
  assumes "section_active xs"
  shows "\<exists>h \<in> set xs. sublist ''#### Automated Verification:'' h"
proof -
  from assms obtain h hs where f: "filter is_section_header (rev xs) = h # hs"
    and a: "sublist ''#### Automated Verification:'' h"
    by (auto simp add: section_active_def split: list.splits)
  have "h \<in> set (filter is_section_header (rev xs))" unfolding f by simp
  then have "h \<in> set xs" by simp
  with a show ?thesis by blast
qed

lemma first_line_prefix: "prefix (hd (split_lines s)) s"
proof (induction s)
  case Nil
  show ?case by simp
next
  case (Cons c cs)
  then show ?case
    using split_lines_not_Nil [of cs] by (cases "split_lines cs") auto
qed

lemma line_sublist: "l \<in> set (split_lines s) \<Longrightarrow> sublist l s"
proof (induction s arbitrary: l)
  case Nil
  then show ?case by simp
next
  case (Cons c cs)
  obtain l0 ls where ls: "split_lines cs = l0 # ls"
    using split_lines_not_Nil [of cs] by (cases "split_lines cs") auto
  show ?case
  proof (cases "c = CHR 0x0A")
    case True
    with Cons.prems have "l = [] \<or> l \<in> set (split_lines cs)" by simp
    then show ?thesis
      using Cons.IH by (auto simp add: sublist_Cons_right)
  next
    case False
    with Cons.prems ls have "l = c # l0 \<or> l \<in> set ls" by simp
    then show ?thesis
    proof
      assume "l = c # l0"
      moreover have "prefix l0 cs" using first_line_prefix [of cs] ls by simp
      ultimately show ?thesis by (simp add: sublist_Cons_right)
    next
      assume "l \<in> set ls"
      then have "sublist l cs" using Cons.IH ls by simp
      then show ?thesis by (simp add: sublist_Cons_right)
    qed
  qed
qed

section \<open>Properties of the completion check\<close>


text \<open>Checking the box of one item line.\<close>

lemma check_one_item:
  assumes i: "i < length (split_lines c)"
    and line: "split_lines c ! i = indent @ ''- [ ]'' @ label"
    and indent: "list_all is_space indent"
  shows "is_phase_completed (join_lines ((split_lines c)[i := indent @ ''- [x]'' @ label]))
     = (\<not> (\<exists>j. j \<noteq> i \<and> unchecked_in_section (split_lines c) j))"
proof -
  define ls where "ls = split_lines c"
  define new where "new = indent @ ''- [x]'' @ label"
  define key where "key = (\<lambda>l. (sublist ''#### Automated Verification:'' l,
                      sublist ''#### Manual Verification:'' l))"
  have old: "ls ! i = indent @ ''- [ ]'' @ label" and i': "i < length ls"
    using line i by (simp_all add: ls_def)
  have nl: "\<forall>l \<in> set ls. CHR 0x0A \<notin> set l"
    unfolding ls_def using split_lines_no_newline by blast
  have "CHR 0x0A \<notin> set (ls ! i)" using nl i' by simp
  then have nl_new: "CHR 0x0A \<notin> set new"
    unfolding old new_def by simp
  have nl': "\<forall>l \<in> set (ls[i := new]). CHR 0x0A \<notin> set l"
    using nl nl_new set_update_subset_insert [of ls i new] by auto
  have ne: "ls[i := new] \<noteq> []" using i' by auto
  have split: "split_lines (join_lines (ls[i := new])) = ls[i := new]"
    using split_join_lines [OF ne nl'] .
  have k: "key new = key (ls ! i)"
    unfolding key_def new_def old
    using header_of_checked [of "indent @ ''- ''" label] by simp
  have hdr: "is_section_header new = is_section_header (ls ! i)"
    using k by (simp add: key_def is_section_header_def)
  have not_item: "\<not> unchecked_item new"
    unfolding new_def using unchecked_item_forms(3) [OF indent] .
  have active: "section_active (take j (ls[i := new])) = section_active (take j ls)" for j
  proof (rule section_active_cong)
    have "map key (take j (ls[i := new])) = (map key (take j ls))[i := key (ls ! i)]"
      by (simp add: take_update_swap map_update k)
    also have "\<dots> = map key (take j ls)"
    proof (cases "i < j")
      case True
      then have "(map key (take j ls)) ! i = key (ls ! i)" using i' by simp
      then show ?thesis by (metis list_update_id)
    next
      case False
      then show ?thesis by (simp add: list_update_beyond)
    qed
    finally show "map (\<lambda>l. (sublist ''#### Automated Verification:'' l,
                      sublist ''#### Manual Verification:'' l)) (take j (ls[i := new]))
         = map (\<lambda>l. (sublist ''#### Automated Verification:'' l,
                      sublist ''#### Manual Verification:'' l)) (take j ls)"
      unfolding key_def .
  qed
  have each: "unchecked_in_section (ls[i := new]) j = (j \<noteq> i \<and> unchecked_in_section ls j)" for j
    unfolding unchecked_in_section_def active
    using not_item by (cases "j = i") auto
  show ?thesis
    unfolding completed_iff split ls_def [symmetric] new_def [symmetric] each ..
qed

lemma no_section_completed:
  assumes "\<not> sublist ''#### Automated Verification:'' c"
  shows "is_phase_completed c"
proof -
  have "\<not> section_active (take i (split_lines c))" for i
  proof
    assume "section_active (take i (split_lines c))"
    then obtain h where h: "h \<in> set (take i (split_lines c))"
      "sublist ''#### Automated Verification:'' h"
      using section_active_has_header by blast
    from h(1) have "h \<in> set (split_lines c)" by (rule in_set_takeD)
    then have "sublist h c" by (rule line_sublist)
    with h(2) have "sublist ''#### Automated Verification:'' c"
      using sublist_order.order_trans by blast
    with assms show False by simp
  qed
  then show ?thesis
    unfolding completed_iff unchecked_in_section_def by simp
qed

text \<open>
  Claim C2 as stated fails where the section has a second unchecked item: after the box
  of the first item is checked the content is still incomplete.
\<close>

theorem unchecked_items_decide_completion_counterexample:
  "\<not> is_phase_completed ''#### Automated Verification:\<newline>- [ ] lint passes\<newline>- [ ] tests pass''
   \<and> \<not> is_phase_completed ''#### Automated Verification:\<newline>- [x] lint passes\<newline>- [ ] tests pass''"
  by code_simp

text \<open>
  Claim C2, amended.  A content is incomplete exactly when one of its lines is an
  unchecked item of the automated section: the last header before the line opens the
  automated section, and the line is an item and not a header.  So a content with an
  item line \<open>- [ ]\<close> in the active automated section is incomplete; after that line's
  \<open>[ ]\<close> is replaced by \<open>[x]\<close> the content is complete exactly when no other line is
  such an item; and a content without the automated marker is complete.
\<close>

theorem unchecked_items_decide_completion:
  "(is_phase_completed c \<longleftrightarrow> \<not> (\<exists>i. unchecked_in_section (split_lines c) i))
   \<and> (\<forall>i indent label.
         i < length (split_lines c) \<and> split_lines c ! i = indent @ ''- [ ]'' @ label
         \<and> list_all is_space indent \<and> label \<noteq> []
         \<and> section_active (take i (split_lines c)) \<and> \<not> is_section_header (split_lines c ! i)
         \<longrightarrow> \<not> is_phase_completed c)
   \<and> (\<forall>i indent label.
         i < length (split_lines c) \<and> split_lines c ! i = indent @ ''- [ ]'' @ label
         \<and> list_all is_space indent
         \<longrightarrow> (is_phase_completed (join_lines ((split_lines c)[i := indent @ ''- [x]'' @ label]))
              \<longleftrightarrow> \<not> (\<exists>j. j \<noteq> i \<and> unchecked_in_section (split_lines c) j)))
   \<and> (\<not> sublist ''#### Automated Verification:'' c \<longrightarrow> is_phase_completed c)"
proof -
  have a: "is_phase_completed c \<longleftrightarrow> \<not> (\<exists>i. unchecked_in_section (split_lines c) i)"
    by (rule completed_iff)
  have b: "\<not> is_phase_completed c"
    if "i < length (split_lines c)" "split_lines c ! i = indent @ ''- [ ]'' @ label"
      "list_all is_space indent" "label \<noteq> []"
      "section_active (take i (split_lines c))" "\<not> is_section_header (split_lines c ! i)"
    for i indent label
  proof -
    have "unchecked_item (split_lines c ! i)"
      unfolding that(2) using unchecked_item_forms(1) [OF that(3)] that(4) by simp
    with that have "unchecked_in_section (split_lines c) i"
      by (simp add: unchecked_in_section_def)
    then show ?thesis unfolding completed_iff by blast
  qed
  have d: "is_phase_completed (join_lines ((split_lines c)[i := indent @ ''- [x]'' @ label]))
              \<longleftrightarrow> \<not> (\<exists>j. j \<noteq> i \<and> unchecked_in_section (split_lines c) j)"
    if "i < length (split_lines c)" "split_lines c ! i = indent @ ''- [ ]'' @ label"
      "list_all is_space indent"
    for i indent label
    using check_one_item [OF that] .
  have e: "\<not> sublist ''#### Automated Verification:'' c \<longrightarrow> is_phase_completed c"
    using no_section_completed by blast
  from a b d e show ?thesis by blast
qed


theorem unchecked_items_decide_completion_witness:
  "\<not> is_phase_completed ''#### Automated Verification:\<newline>- [ ] tests pass''
   \<and> is_phase_completed ''#### Automated Verification:\<newline>- [x] tests pass''
   \<and> is_phase_completed ''Nothing to verify.''"
proof -
  let ?c = "''#### Automated Verification:\<newline>- [ ] tests pass''"
  let ?ls = "[''#### Automated Verification:'', ''- [ ] tests pass'']"
  have ls: "split_lines ?c = ?ls" by code_simp
  have active: "section_active (take 1 ?ls)" by code_simp
  have header: "is_section_header (?ls ! 0)" "\<not> is_section_header (?ls ! 1)" by code_simp+
  have new: "join_lines (?ls[1 := [] @ ''- [x]'' @ '' tests pass''])
      = ''#### Automated Verification:\<newline>- [x] tests pass''"
    by code_simp
  have other: "\<not> (\<exists>j. j \<noteq> 1 \<and> unchecked_in_section ?ls j)"
  proof
    assume "\<exists>j. j \<noteq> 1 \<and> unchecked_in_section ?ls j"
    then obtain j where j: "j \<noteq> 1" "unchecked_in_section ?ls j" by blast
    then have "j < 2" by (simp add: unchecked_in_section_def)
    with j(1) have "j = 0" by simp
    with j(2) header(1) show False by (simp add: unchecked_in_section_def)
  qed
  have none: "\<not> sublist ''#### Automated Verification:'' ''Nothing to verify.''"
    by code_simp
  have t: "(\<forall>i indent label.
         i < length ?ls \<and> ?ls ! i = indent @ ''- [ ]'' @ label
         \<and> list_all is_space indent \<and> label \<noteq> []
         \<and> section_active (take i ?ls) \<and> \<not> is_section_header (?ls ! i)
         \<longrightarrow> \<not> is_phase_completed ?c)
   \<and> (\<forall>i indent label.
         i < length ?ls \<and> ?ls ! i = indent @ ''- [ ]'' @ label
         \<and> list_all is_space indent
         \<longrightarrow> (is_phase_completed (join_lines (?ls[i := indent @ ''- [x]'' @ label]))
              \<longleftrightarrow> \<not> (\<exists>j. j \<noteq> i \<and> unchecked_in_section ?ls j)))"
    using unchecked_items_decide_completion [of ?c] unfolding ls by blast
  have a: "\<not> is_phase_completed ?c"
    using t [THEN conjunct1, rule_format, of 1 "[]" "'' tests pass''"] active header(2)
    by simp
  have b: "is_phase_completed ''#### Automated Verification:\<newline>- [x] tests pass''"
    using t [THEN conjunct2, rule_format, of 1 "[]" "'' tests pass''"] other
    unfolding new by simp
  have c: "is_phase_completed ''Nothing to verify.''"
    using unchecked_items_decide_completion [of "''Nothing to verify.''"] none by blast
  from a b c show ?thesis by blast
qed

text \<open>A line \<open>- [ ]\<close> with nothing after the checkbox may be left out.\<close>

lemma bare_checkbox:
  "\<not> sublist ''#### Automated Verification:'' ''- [ ]''"
  "\<not> sublist ''#### Manual Verification:'' ''- [ ]''"
  "\<not> re_matches unchecked_pattern ''- [ ]''"
  by code_simp+

lemma empty_line:
  "\<not> sublist ''#### Automated Verification:'' []"
  "\<not> sublist ''#### Manual Verification:'' []"
  "\<not> re_matches unchecked_pattern []"
  by code_simp+

lemma completion_scan_without_bare:
  "completion_scan (filter (\<lambda>l. l \<noteq> ''- [ ]'') ls) b = completion_scan ls b"
proof (induction ls arbitrary: b)
  case Nil
  show ?case by simp
next
  case (Cons l ls)
  show ?case
  proof (cases "l = ''- [ ]''")
    case True
    have "completion_scan (l # ls) b = completion_scan ls b"
      unfolding True completion_scan.simps using bare_checkbox by simp
    then show ?thesis using True Cons.IH by simp
  next
    case False
    then have "filter (\<lambda>l. l \<noteq> ''- [ ]'') (l # ls) = l # filter (\<lambda>l. l \<noteq> ''- [ ]'') ls"
      by simp
    then show ?thesis
      by (simp only: completion_scan.simps Cons.IH)
  qed
qed

lemma completion_scan_join:
  assumes "\<forall>l \<in> set ls. CHR 0x0A \<notin> set l"
  shows "completion_scan (split_lines (join_lines ls)) b = completion_scan ls b"
proof (cases "ls = []")
  case True
  then show ?thesis using empty_line by simp
next
  case False
  then show ?thesis using split_join_lines [OF False assms] by simp
qed

text \<open>
  Claim C9 as stated fails at the line \<open>- []\<close> itself: with nothing after the brackets
  the pattern does not match, and the content stays complete.
\<close>

theorem unchecked_pattern_recognizes_counterexample:
  "\<not> re_matches unchecked_pattern ''- []''
   \<and> is_phase_completed ''#### Automated Verification:\<newline>- []''"
  by code_simp

text \<open>
  Claim C9, amended.  On a line (so with no newline in it) the pattern of unchecked items
  matches exactly when the line reads: optional whitespace, \<open>-\<close>, optional whitespace,
  \<open>[\<close>, whitespace or nothing, \<open>]\<close>, and at least one further character.  So a line
  \<open>- []\<close> followed by a further character, in the active automated section, makes the
  content incomplete, while \<open>- [ ]\<close> with nothing after the checkbox does not match: such
  lines can be left out of a content without changing the result.  After either checkbox
  any further character counts, a blank too, and with none the line is no item.
\<close>

theorem unchecked_pattern_recognizes:
  "(CHR 0x0A \<notin> set line \<longrightarrow> re_matches unchecked_pattern line = unchecked_item line)
   \<and> (\<forall>i indent label.
         i < length (split_lines c) \<and> split_lines c ! i = indent @ ''- []'' @ label
         \<and> list_all is_space indent \<and> label \<noteq> []
         \<and> section_active (take i (split_lines c)) \<and> \<not> is_section_header (split_lines c ! i)
         \<longrightarrow> \<not> is_phase_completed c)
   \<and> \<not> re_matches unchecked_pattern ''- [ ]''
   \<and> ((\<forall>l \<in> set ls. CHR 0x0A \<notin> set l) \<longrightarrow>
        is_phase_completed (join_lines ls)
          = is_phase_completed (join_lines (filter (\<lambda>l. l \<noteq> ''- [ ]'') ls)))
   \<and> (\<forall>indent label. list_all is_space indent \<longrightarrow>
        unchecked_item (indent @ ''- []'' @ label) = (label \<noteq> [])
        \<and> unchecked_item (indent @ ''- [ ]'' @ label) = (label \<noteq> []))"
proof -
  have a: "CHR 0x0A \<notin> set line \<longrightarrow> re_matches unchecked_pattern line = unchecked_item line"
    using unchecked_pattern_item by blast
  have b: "\<not> is_phase_completed c"
    if "i < length (split_lines c)" "split_lines c ! i = indent @ ''- []'' @ label"
      "list_all is_space indent" "label \<noteq> []"
      "section_active (take i (split_lines c))" "\<not> is_section_header (split_lines c ! i)"
    for i indent label
  proof -
    have "unchecked_item (split_lines c ! i)"
      unfolding that(2) using unchecked_item_forms(2) [OF that(3)] that(4) by simp
    with that have "unchecked_in_section (split_lines c) i"
      by (simp add: unchecked_in_section_def)
    then show ?thesis unfolding completed_iff by blast
  qed
  have d: "is_phase_completed (join_lines ls)
          = is_phase_completed (join_lines (filter (\<lambda>l. l \<noteq> ''- [ ]'') ls))"
    if "\<forall>l \<in> set ls. CHR 0x0A \<notin> set l"
  proof -
    from that have "\<forall>l \<in> set (filter (\<lambda>l. l \<noteq> ''- [ ]'') ls). CHR 0x0A \<notin> set l"
      by simp
    then show ?thesis
      unfolding is_phase_completed_def
      by (simp only: completion_scan_join [OF that] completion_scan_join
          completion_scan_without_bare)
  qed
  have f: "unchecked_item (indent @ ''- []'' @ label) = (label \<noteq> [])
        \<and> unchecked_item (indent @ ''- [ ]'' @ label) = (label \<noteq> [])"
    if "list_all is_space indent" for indent label
    using unchecked_item_forms(1,2) [OF that] by blast
  from a b d f bare_checkbox(3) show ?thesis by blast
qed

theorem unchecked_pattern_recognizes_witness:
  "re_matches unchecked_pattern ''- [] tests pass''
   \<and> \<not> is_phase_completed ''#### Automated Verification:\<newline>- [] tests pass''
   \<and> is_phase_completed ''#### Automated Verification:\<newline>- [ ]''
   \<and> unchecked_item ''- [ ] '' \<and> \<not> unchecked_item ''- [ ]'' \<and> \<not> unchecked_item ''- []''"
proof -
  let ?c = "''#### Automated Verification:\<newline>- [] tests pass''"
  let ?ls = "[''#### Automated Verification:'', ''- [] tests pass'']"
  have ls: "split_lines ?c = ?ls" by code_simp
  have active: "section_active (take 1 ?ls)" by code_simp
  have header: "\<not> is_section_header (?ls ! 1)" by code_simp
  have nl: "CHR 0x0A \<notin> set ''- [] tests pass''" by simp
  have item: "unchecked_item ''- [] tests pass''" by code_simp
  have a: "re_matches unchecked_pattern ''- [] tests pass''"
    using unchecked_pattern_recognizes [of "''- [] tests pass''" "[]" "[]"] nl item by blast
  have "\<forall>i indent label.
         i < length ?ls \<and> ?ls ! i = indent @ ''- []'' @ label
         \<and> list_all is_space indent \<and> label \<noteq> []
         \<and> section_active (take i ?ls) \<and> \<not> is_section_header (?ls ! i)
         \<longrightarrow> \<not> is_phase_completed ?c"
    using unchecked_pattern_recognizes [of "[]" ?c "[]"] unfolding ls by blast
  from this [rule_format, of 1 "[]" "'' tests pass''"] active header
  have b: "\<not> is_phase_completed ?c" by simp
  let ?ks = "[''#### Automated Verification:'', ''- [ ]'']"
  have nl2: "\<forall>l \<in> set ?ks. CHR 0x0A \<notin> set l" by simp
  have j: "join_lines ?ks = ''#### Automated Verification:\<newline>- [ ]''"
    "join_lines (filter (\<lambda>l. l \<noteq> ''- [ ]'') ?ks) = ''#### Automated Verification:''"
    by code_simp+
  have only: "is_phase_completed ''#### Automated Verification:''" by code_simp
  have c: "is_phase_completed ''#### Automated Verification:\<newline>- [ ]''"
    using unchecked_pattern_recognizes [of "[]" "[]" ?ks] nl2 only unfolding j by blast
  have forms: "\<forall>indent label. list_all is_space indent \<longrightarrow>
        unchecked_item (indent @ ''- []'' @ label) = (label \<noteq> [])
        \<and> unchecked_item (indent @ ''- [ ]'' @ label) = (label \<noteq> [])"
    using unchecked_pattern_recognizes [of "[]" "[]" "[]"] by blast
  have d: "unchecked_item ''- [ ] ''"
    using forms [rule_format, of "[]" "'' ''"] by simp
  have e: "\<not> unchecked_item ''- [ ]''" "\<not> unchecked_item ''- []''"
    using forms [rule_format, of "[]" "[]"] by simp_all
  from a b c d e show ?thesis by blast
qed

section \<open>Properties of the phase extractor\<close>


text \<open>
  The loop of the extractor, from any state: the lines up to the first heading go to the
  phase that is open, if there is one; each heading then opens a phase whose content is
  the lines up to the next heading.
\<close>

lemma cut_at_headings_lines:
  "ls = fst (cut_at_headings ls)
         @ concat (map (\<lambda>seg. fst seg # snd seg) (snd (cut_at_headings ls)))"
  by (induction ls) auto

lemma cut_at_headings_before: "\<forall>l \<in> set (fst (cut_at_headings ls)). \<not> is_phase_heading l"
  by (induction ls) auto

lemma cut_at_headings_segments:
  "\<forall>seg \<in> set (snd (cut_at_headings ls)).
     is_phase_heading (fst seg) \<and> (\<forall>l \<in> set (snd seg). \<not> is_phase_heading l)"
proof (induction ls)
  case Nil
  show ?case by simp
next
  case (Cons l ls)
  then show ?case using cut_at_headings_before [of ls] by auto
qed

lemma cut_at_headings_length:
  "length (snd (cut_at_headings ls)) = length (filter is_phase_heading ls)"
  by (induction ls) auto

lemma save_phase_None: "save_phase phases None body = phases"
  by (simp add: save_phase_def)

lemma save_phase_heading:
  "match_heading l = Some h \<Longrightarrow> save_phase phases (Some h) body = phases @ [phase_of (l, body)]"
  by (simp add: save_phase_def phase_of_def Let_def)

lemma parse_loop_cut:
  "parse_loop ls phases cur body =
     save_phase phases cur (body @ fst (cut_at_headings ls))
       @ map phase_of (snd (cut_at_headings ls))"
proof (induction ls arbitrary: phases cur body)
  case Nil
  show ?case by simp
next
  case (Cons l ls)
  show ?case
  proof (cases "match_heading l")
    case (Some h)
    then have hl: "is_phase_heading l" by (simp add: is_phase_heading_def)
    have "parse_loop (l # ls) phases cur body
        = parse_loop ls (save_phase phases cur body) (Some h) []"
      by (simp add: Some)
    also have "\<dots> = save_phase (save_phase phases cur body) (Some h) (fst (cut_at_headings ls))
        @ map phase_of (snd (cut_at_headings ls))"
      by (simp add: Cons.IH)
    also have "\<dots> = save_phase phases cur body
        @ phase_of (l, fst (cut_at_headings ls)) # map phase_of (snd (cut_at_headings ls))"
      by (simp add: save_phase_heading [OF Some])
    finally show ?thesis using hl by simp
  next
    case None
    then have hl: "\<not> is_phase_heading l" by (simp add: is_phase_heading_def)
    show ?thesis
    proof (cases cur)
      case cur: None
      have "parse_loop (l # ls) phases cur body = parse_loop ls phases None body"
        by (simp add: None cur)
      then show ?thesis
        using hl by (simp only: Cons.IH cur save_phase_None cut_at_headings.simps if_False
            fst_conv snd_conv)
    next
      case cur: (Some cp)
      have "parse_loop (l # ls) phases cur body = parse_loop ls phases cur (body @ [l])"
        by (simp add: None cur)
      then show ?thesis
        using hl by (simp only: Cons.IH cut_at_headings.simps if_False fst_conv snd_conv
            append_assoc append_Cons append_Nil)
    qed
  qed
qed


lemma re_matches_LazyStar:
  "re_matches (LazyStar a # r) s =
     (re_matches r s
      \<or> (case s of [] \<Rightarrow> False | c # cs \<Rightarrow> atom_ok a c \<and> re_matches (LazyStar a # r) cs))"
proof (cases s)
  case Nil
  then show ?thesis by (simp add: re_matches_def split: option.splits)
next
  case (Cons c cs)
  have "(re_match (LazyStar a # r) s ([], None) = None) =
      (\<not> (re_match r s ([], None) \<noteq> None
        \<or> (atom_ok a c \<and> re_match (LazyStar a # r) cs (consume c ([], None)) \<noteq> None)))"
    unfolding Cons
    by (subst re_match.simps) (simp del: re_match.simps split: option.splits)
  then show ?thesis
    unfolding re_match_caps Cons list.case by blast
qed

lemma re_matches_LazyPlus:
  "re_matches (LazyPlus a # r) s =
     (case s of [] \<Rightarrow> False | c # cs \<Rightarrow> atom_ok a c \<and> re_matches (LazyStar a # r) cs)"
proof (cases s)
  case Nil
  then show ?thesis by (simp add: re_matches_def)
next
  case (Cons c cs)
  have "(re_match (LazyPlus a # r) s ([], None) = None) =
      (\<not> (atom_ok a c \<and> re_match (LazyStar a # r) cs (consume c ([], None)) \<noteq> None))"
    unfolding Cons
    by (subst re_match.simps) (simp del: re_match.simps)
  then show ?thesis
    unfolding re_match_caps Cons list.case by blast
qed

lemma re_matches_Eol:
  "re_matches (Eol # r) s = ((s = [] \<or> s = [CHR 0x0A]) \<and> re_matches r s)"
  unfolding re_matches_def by simp

lemma re_matches_lits:
  "re_matches (lits t @ r) s = (\<exists>u. s = t @ u \<and> re_matches r u)"
proof (induction t arbitrary: s)
  case Nil
  show ?case by (simp add: lits_def)
next
  case (Cons c t)
  have "re_matches (lits (c # t) @ r) s =
      (case s of [] \<Rightarrow> False | d # ds \<Rightarrow> d = c \<and> re_matches (lits t @ r) ds)"
    by (cases s) (simp_all add: lits_def re_matches_One)
  then show ?case
    unfolding Cons.IH by (cases s) auto
qed

text \<open>A greedy repetition before a character it cannot take gives nothing back.\<close>

lemma star_then_literal:
  assumes "\<not> atom_ok a d"
  shows "re_matches (Star a # One (Lit d) # r) s =
     (case dropWhile (atom_ok a) s of [] \<Rightarrow> False | c # cs \<Rightarrow> c = d \<and> re_matches r cs)"
proof (induction s)
  case Nil
  show ?case by (simp add: re_matches_Star re_matches_One)
next
  case (Cons c cs)
  show ?case
  proof (cases "atom_ok a c")
    case True
    with assms have "c \<noteq> d" by auto
    with True Cons show ?thesis
      by (subst re_matches_Star) (simp add: re_matches_One)
  next
    case False
    then show ?thesis
      by (subst re_matches_Star) (simp add: re_matches_One)
  qed
qed

lemma star_group_close:
  "re_matches (Star a # GroupClose # r) s = re_matches (Star a # r) s"
proof (induction s)
  case Nil
  show ?case
    unfolding re_matches_Star [of a "GroupClose # r" "[]"] re_matches_Star [of a r "[]"]
    by (simp add: re_matches_GroupClose)
next
  case (Cons c cs)
  show ?case
    unfolding re_matches_Star [of a "GroupClose # r" "c # cs"] re_matches_Star [of a r "c # cs"]
    by (simp add: re_matches_GroupClose Cons)
qed

lemma lazy_label:
  assumes "CHR 0x0A \<notin> set s"
  shows "re_matches [LazyStar Dot, GroupClose, Eol] s"
  using assms
proof (induction s)
  case Nil
  show ?case
    by (subst re_matches_LazyStar)
      (simp add: re_matches_GroupClose re_matches_Eol re_matches_Nil)
next
  case (Cons c cs)
  then show ?case
    by (subst re_matches_LazyStar) auto
qed

lemma label_matches:
  assumes "CHR 0x0A \<notin> set s"
  shows "re_matches [Star Space, GroupOpen, LazyPlus Dot, GroupClose, Eol] s = (s \<noteq> [])"
proof (cases s)
  case Nil
  then show ?thesis
    by (simp add: re_matches_Star re_matches_GroupOpen re_matches_LazyPlus)
next
  case (Cons c cs)
  with assms have "c \<noteq> CHR 0x0A" "CHR 0x0A \<notin> set cs" by auto
  then have "re_matches [GroupOpen, LazyPlus Dot, GroupClose, Eol] s"
    using Cons lazy_label [of cs] by (simp add: re_matches_GroupOpen re_matches_LazyPlus)
  then show ?thesis
    using Cons by (subst re_matches_Star) simp
qed

lemma is_phase_heading_matches: "is_phase_heading l = re_matches phase_pattern l"
  by (simp add: is_phase_heading_def match_heading_def re_matches_def split: option.splits)

text \<open>
  A heading, on a line with no newline: \<open>## Phase\<close> and a blank, one or more digits,
  a colon, and a label of at least one character.
\<close>

lemma heading_shape:
  assumes "CHR 0x0A \<notin> set l"
  shows "is_phase_heading l =
     (\<exists>digits label. l = ''## Phase '' @ digits @ '':'' @ label
        \<and> digits \<noteq> [] \<and> list_all is_digit digits \<and> label \<noteq> [])"
proof -
  let ?tail = "[Star Space, GroupOpen, LazyPlus Dot, GroupClose, Eol]"
  have colon: "\<not> atom_ok Digit CHR '':''" by (simp add: is_digit_def)
  have number: "re_matches (GroupOpen # Plus Digit # GroupClose # One (Lit CHR '':'') # ?tail) u =
      (\<exists>digits label. u = digits @ '':'' @ label \<and> digits \<noteq> [] \<and> list_all is_digit digits
          \<and> label \<noteq> [])"
    if nl: "CHR 0x0A \<notin> set u" for u
  proof (cases u)
    case Nil
    then show ?thesis by (simp add: re_matches_GroupOpen re_matches_Plus)
  next
    case (Cons c cs)
    have star: "re_matches (Star Digit # GroupClose # One (Lit CHR '':'') # ?tail) v =
        (case dropWhile is_digit v of [] \<Rightarrow> False
         | x # xs \<Rightarrow> x = CHR '':'' \<and> re_matches ?tail xs)" for v
    proof -
      have "re_matches (Star Digit # GroupClose # One (Lit CHR '':'') # ?tail) v =
          re_matches (Star Digit # One (Lit CHR '':'') # ?tail) v"
        by (rule star_group_close)
      moreover have "atom_ok Digit = is_digit" by (rule ext) simp
      ultimately show ?thesis using star_then_literal [OF colon, of ?tail v] by simp
    qed
    show ?thesis
    proof
      assume "re_matches (GroupOpen # Plus Digit # GroupClose # One (Lit CHR '':'') # ?tail) u"
      then have c: "is_digit c" and m: "re_matches (Star Digit # GroupClose
          # One (Lit CHR '':'') # ?tail) cs"
        using Cons by (simp_all add: re_matches_GroupOpen re_matches_Plus)
      from m obtain xs where d: "dropWhile is_digit cs = CHR '':'' # xs"
        and t: "re_matches ?tail xs"
        unfolding star by (auto split: list.splits)
      have "set (dropWhile is_digit cs) \<subseteq> set cs"
        using set_dropWhileD [of _ is_digit cs] by blast
      then have "set xs \<subseteq> set u" unfolding d Cons by auto
      then have "CHR 0x0A \<notin> set xs" using nl by blast
      with t have "xs \<noteq> []" using label_matches by simp
      moreover have "u = (c # takeWhile is_digit cs) @ '':'' @ xs"
        using Cons d takeWhile_dropWhile_id [of is_digit cs] by simp
      moreover have "list_all is_digit (c # takeWhile is_digit cs)"
        using c set_takeWhileD [of _ is_digit cs] by (auto simp add: list_all_iff)
      ultimately show "\<exists>digits label. u = digits @ '':'' @ label \<and> digits \<noteq> []
          \<and> list_all is_digit digits \<and> label \<noteq> []"
        by blast
    next
      assume "\<exists>digits label. u = digits @ '':'' @ label \<and> digits \<noteq> []
          \<and> list_all is_digit digits \<and> label \<noteq> []"
      then obtain digits label where u: "u = digits @ '':'' @ label" and "digits \<noteq> []"
        and dg: "list_all is_digit digits" and lb: "label \<noteq> []"
        by blast
      then obtain ds where ds: "digits = c # ds" using Cons by (cases digits) auto
      with dg have c: "is_digit c" and dss: "\<forall>x \<in> set ds. is_digit x"
        by (simp_all add: list_all_iff)
      have cs: "cs = ds @ CHR '':'' # label" using u Cons ds by simp
      have "dropWhile is_digit cs = CHR '':'' # label"
        unfolding cs using dss colon by (simp add: dropWhile_append)
      moreover have "CHR 0x0A \<notin> set label" using nl u by simp
      ultimately have "re_matches (Star Digit # GroupClose # One (Lit CHR '':'') # ?tail) cs"
        unfolding star using label_matches lb by simp
      with c show "re_matches (GroupOpen # Plus Digit # GroupClose
          # One (Lit CHR '':'') # ?tail) u"
        using Cons by (simp add: re_matches_GroupOpen re_matches_Plus)
    qed
  qed
  have "is_phase_heading l =
      (\<exists>u. l = ''## Phase '' @ u
         \<and> re_matches (GroupOpen # Plus Digit # GroupClose # One (Lit CHR '':'') # ?tail) u)"
    unfolding is_phase_heading_matches phase_pattern_def re_matches_lits by simp
  also have "\<dots> = (\<exists>u. l = ''## Phase '' @ u
         \<and> (\<exists>digits label. u = digits @ '':'' @ label \<and> digits \<noteq> [] \<and> list_all is_digit digits
          \<and> label \<noteq> []))"
  proof -
    have "re_matches (GroupOpen # Plus Digit # GroupClose # One (Lit CHR '':'') # ?tail) u =
      (\<exists>digits label. u = digits @ '':'' @ label \<and> digits \<noteq> [] \<and> list_all is_digit digits
          \<and> label \<noteq> [])" if "l = ''## Phase '' @ u" for u
    proof (rule number)
      from assms that show "CHR 0x0A \<notin> set u" by simp
    qed
    then show ?thesis by auto
  qed
  finally show ?thesis by auto
qed


text \<open>There is one way only to cut the lines at the headings.\<close>

lemma cut_at_headings_skip:
  assumes "\<forall>l \<in> set pre. \<not> is_phase_heading l"
  shows "cut_at_headings (pre @ rest)
     = (pre @ fst (cut_at_headings rest), snd (cut_at_headings rest))"
  using assms by (induction pre) simp_all

lemma cut_at_headings_concat:
  assumes "\<forall>seg \<in> set segs. is_phase_heading (fst seg)
           \<and> (\<forall>l \<in> set (snd seg). \<not> is_phase_heading l)"
  shows "cut_at_headings (concat (map (\<lambda>seg. fst seg # snd seg) segs)) = ([], segs)"
  using assms
proof (induction segs)
  case Nil
  show ?case by simp
next
  case (Cons seg segs)
  then have h: "is_phase_heading (fst seg)"
    and b: "\<forall>l \<in> set (snd seg). \<not> is_phase_heading l"
    and rest: "cut_at_headings (concat (map (\<lambda>seg. fst seg # snd seg) segs)) = ([], segs)"
    by simp_all
  show ?case
    using h by (simp add: cut_at_headings_skip [OF b] rest)
qed

lemma cut_at_headings_unique:
  assumes "ls = pre @ concat (map (\<lambda>seg. fst seg # snd seg) segs)"
    and "\<forall>l \<in> set pre. \<not> is_phase_heading l"
    and "\<forall>seg \<in> set segs. is_phase_heading (fst seg)
           \<and> (\<forall>l \<in> set (snd seg). \<not> is_phase_heading l)"
  shows "cut_at_headings ls = (pre, segs)"
  unfolding assms(1)
  by (simp add: cut_at_headings_skip [OF assms(2)] cut_at_headings_concat [OF assms(3)])

text \<open>The groups of a heading: the digits, and the label from its first character that
  is not whitespace (its last character when all are whitespace).\<close>

lemma re_match_lits:
  "re_match (lits t @ r) (t @ u) (gs, None) = re_match r u (gs, None)"
  by (induction t) (simp_all add: lits_def)

lemma greedy_digits:
  assumes "\<forall>d \<in> set ds. is_digit d"
  shows "re_match (Star Digit # GroupClose # One (Lit CHR '':'') # r) (ds @ CHR '':'' # rest)
           (gs, Some g)
       = re_match r rest (gs @ [g @ ds], None)"
  using assms
proof (induction ds arbitrary: g)
  case Nil
  have "\<not> is_digit CHR '':''" by (simp add: is_digit_def)
  then show ?case by simp
next
  case (Cons d ds)
  then have d: "is_digit d" and ds: "\<forall>d \<in> set ds. is_digit d" by simp_all
  have "d \<noteq> CHR '':''" using d by (auto simp add: is_digit_def)
  then have stuck: "re_match (GroupClose # One (Lit CHR '':'') # r)
      ((d # ds) @ CHR '':'' # rest) (gs, Some g) = None"
    by simp
  have "re_match (Star Digit # GroupClose # One (Lit CHR '':'') # r)
          ((d # ds) @ CHR '':'' # rest) (gs, Some g)
      = (case re_match (Star Digit # GroupClose # One (Lit CHR '':'') # r)
                (ds @ CHR '':'' # rest) (gs, Some (g @ [d])) of
           Some res \<Rightarrow> Some res
         | None \<Rightarrow> re_match (GroupClose # One (Lit CHR '':'') # r)
                     ((d # ds) @ CHR '':'' # rest) (gs, Some g))"
    using d by (subst re_match.simps) (simp del: re_match.simps)
  also have "\<dots> = re_match r rest (gs @ [g @ d # ds], None)"
    unfolding Cons.IH [OF ds] stuck by (simp split: option.splits)
  finally show ?case .
qed

lemma lazy_group:
  assumes "CHR 0x0A \<notin> set s"
  shows "re_match [LazyStar Dot, GroupClose, Eol] s (gs, Some g) = Some (gs @ [g @ s])"
  using assms
proof (induction s arbitrary: g)
  case Nil
  show ?case by simp
next
  case (Cons c cs)
  then have c: "c \<noteq> CHR 0x0A" and cs: "CHR 0x0A \<notin> set cs" by auto
  have "re_match [GroupClose, Eol] (c # cs) (gs, Some g) = None"
    using c by simp
  then have "re_match [LazyStar Dot, GroupClose, Eol] (c # cs) (gs, Some g)
      = re_match [LazyStar Dot, GroupClose, Eol] cs (gs, Some (g @ [c]))"
    using c by (subst re_match.simps) (simp del: re_match.simps)
  then show ?case using Cons.IH [OF cs, of "g @ [c]"] by simp
qed

lemma label_group:
  assumes "CHR 0x0A \<notin> set s" and "s \<noteq> []"
  shows "re_match [GroupOpen, LazyPlus Dot, GroupClose, Eol] s (gs, None) = Some (gs @ [s])"
proof -
  from assms obtain c cs where s: "s = c # cs" by (cases s) auto
  with assms(1) have "c \<noteq> CHR 0x0A" "CHR 0x0A \<notin> set cs" by auto
  then show ?thesis
    unfolding s using lazy_group [of cs gs "[c]"] by simp
qed

lemma greedy_spaces:
  assumes "CHR 0x0A \<notin> set s" and "s \<noteq> []"
  shows "re_match [Star Space, GroupOpen, LazyPlus Dot, GroupClose, Eol] s (gs, None)
     = Some (gs @ [if dropWhile is_space s = [] then [last s] else dropWhile is_space s])"
  using assms
proof (induction s)
  case Nil
  then show ?case by simp
next
  case (Cons c cs)
  let ?r = "[GroupOpen, LazyPlus Dot, GroupClose, Eol]"
  from Cons.prems have nl: "CHR 0x0A \<notin> set (c # cs)" and ncs: "CHR 0x0A \<notin> set cs" by auto
  note here = label_group [OF nl, of gs]
  show ?case
  proof (cases "is_space c")
    case False
    then have "re_match (Star Space # ?r) (c # cs) (gs, None) = re_match ?r (c # cs) (gs, None)"
      by (subst re_match.simps) (simp del: re_match.simps)
    then show ?thesis using False here by simp
  next
    case True
    have step: "re_match (Star Space # ?r) (c # cs) (gs, None) =
        (case re_match (Star Space # ?r) cs (gs, None) of
           Some res \<Rightarrow> Some res
         | None \<Rightarrow> re_match ?r (c # cs) (gs, None))"
      using True by (subst re_match.simps) (simp del: re_match.simps)
    show ?thesis
    proof (cases "cs = []")
      case e: True
      have "re_match (Star Space # ?r) [] (gs, None) = None" by simp
      then show ?thesis
        unfolding step e using True here e by simp
    next
      case ne: False
      from Cons.IH [OF ncs ne] show ?thesis
        unfolding step using True ne by simp
    qed
  qed
qed

lemma py_strip_group:
  assumes "s \<noteq> []"
  shows "py_strip (if dropWhile is_space s = [] then [last s] else dropWhile is_space s)
     = py_strip s"
proof (cases "dropWhile is_space s = []")
  case True
  then have all: "\<forall>c \<in> set s. is_space c" by (simp add: dropWhile_eq_Nil_conv)
  with assms have "is_space (last s)" by simp
  then have "py_strip [last s] = []" by (simp add: py_strip_def)
  moreover have "py_strip s = []" unfolding py_strip_def True by simp
  ultimately show ?thesis by (simp add: True)
next
  case False
  have "py_strip (dropWhile is_space s) = py_strip s"
    unfolding py_strip_def by (simp only: dropWhile_idem)
  with False show ?thesis by (simp only: if_False)
qed

lemma heading_groups:
  assumes "CHR 0x0A \<notin> set label" and "label \<noteq> []"
    and "digits \<noteq> []" and "list_all is_digit digits"
  shows "match_heading (''## Phase '' @ digits @ '':'' @ label)
     = Some (py_int digits, py_strip label)"
proof -
  let ?tail = "[Star Space, GroupOpen, LazyPlus Dot, GroupClose, Eol]"
  let ?g2 = "if dropWhile is_space label = [] then [last label] else dropWhile is_space label"
  from assms(3,4) obtain d ds where ds: "digits = d # ds" "is_digit d" "\<forall>x \<in> set ds. is_digit x"
    by (cases digits) (auto simp add: list_all_iff)
  have "re_match phase_pattern (''## Phase '' @ digits @ '':'' @ label) ([], None)
      = re_match (GroupOpen # Plus Digit # GroupClose # One (Lit CHR '':'') # ?tail)
          (digits @ '':'' @ label) ([], None)"
    unfolding phase_pattern_def by (rule re_match_lits)
  also have "\<dots> = re_match (Star Digit # GroupClose # One (Lit CHR '':'') # ?tail)
          (ds @ CHR '':'' # label) ([], Some [d])"
    using ds by simp
  also have "\<dots> = re_match ?tail label ([] @ [[d] @ ds], None)"
    by (rule greedy_digits [OF ds(3)])
  also have "\<dots> = Some ([digits, ?g2])"
    using greedy_spaces [OF assms(1,2), of "[digits]"] ds(1) by simp
  finally have "re_match phase_pattern (''## Phase '' @ digits @ '':'' @ label) ([], None)
      = Some [digits, ?g2]" .
  then show ?thesis
    unfolding match_heading_def using py_strip_group [OF assms(2)] by simp
qed

text \<open>
  Claim C1.  The lines of a document can be cut in one way into the lines before its
  first heading and, for each heading in turn, the heading with the lines up to the next
  heading or to the end.  The extractor returns one record for each heading, in this
  order, and the content of a record is the lines of its heading's piece; the lines
  before the first heading go to no record.  A heading is a line \<open>## Phase\<close>, a blank,
  digits, a colon and a label of at least one character; its record has the value of
  the digits as number and the stripped label as name.
\<close>

theorem parse_plan_cuts_at_headings:
  assumes "plan_file w plan_path = Some doc"
  shows "(\<exists>pre segs.
       split_lines doc = pre @ concat (map (\<lambda>seg. fst seg # snd seg) segs)
       \<and> (\<forall>l \<in> set pre. \<not> is_phase_heading l)
       \<and> (\<forall>seg \<in> set segs. is_phase_heading (fst seg)
             \<and> (\<forall>l \<in> set (snd seg). \<not> is_phase_heading l)))
    \<and> (\<forall>pre segs.
       split_lines doc = pre @ concat (map (\<lambda>seg. fst seg # snd seg) segs)
       \<and> (\<forall>l \<in> set pre. \<not> is_phase_heading l)
       \<and> (\<forall>seg \<in> set segs. is_phase_heading (fst seg)
             \<and> (\<forall>l \<in> set (snd seg). \<not> is_phase_heading l))
       \<longrightarrow> parse_plan w plan_path = Inr (map phase_of segs)
           \<and> length segs = length (filter is_phase_heading (split_lines doc)))
    \<and> (\<forall>l \<in> set (split_lines doc).
         is_phase_heading l \<longleftrightarrow>
           (\<exists>digits label. l = ''## Phase '' @ digits @ '':'' @ label
              \<and> digits \<noteq> [] \<and> list_all is_digit digits \<and> label \<noteq> []))
    \<and> (\<forall>l \<in> set (split_lines doc). \<forall>digits label.
         l = ''## Phase '' @ digits @ '':'' @ label
         \<and> digits \<noteq> [] \<and> list_all is_digit digits \<and> label \<noteq> []
         \<longrightarrow> match_heading l = Some (py_int digits, py_strip label))"
proof -
  let ?cut = "cut_at_headings (split_lines doc)"
  have parse: "parse_plan w plan_path = Inr (map phase_of (snd ?cut))"
    using assms by (simp add: parse_plan_def parse_loop_cut save_phase_None)
  have ex: "split_lines doc = fst ?cut @ concat (map (\<lambda>seg. fst seg # snd seg) (snd ?cut))
     \<and> (\<forall>l \<in> set (fst ?cut). \<not> is_phase_heading l)
     \<and> (\<forall>seg \<in> set (snd ?cut). is_phase_heading (fst seg)
           \<and> (\<forall>l \<in> set (snd seg). \<not> is_phase_heading l))"
    using cut_at_headings_lines [of "split_lines doc"] cut_at_headings_before
      cut_at_headings_segments by blast
  have all: "parse_plan w plan_path = Inr (map phase_of segs)
           \<and> length segs = length (filter is_phase_heading (split_lines doc))"
    if "split_lines doc = pre @ concat (map (\<lambda>seg. fst seg # snd seg) segs)"
      "\<forall>l \<in> set pre. \<not> is_phase_heading l"
      "\<forall>seg \<in> set segs. is_phase_heading (fst seg)
             \<and> (\<forall>l \<in> set (snd seg). \<not> is_phase_heading l)"
    for pre segs
  proof -
    have "?cut = (pre, segs)" using cut_at_headings_unique [OF that] .
    then show ?thesis
      using parse cut_at_headings_length [of "split_lines doc"] by simp
  qed
  have shape: "is_phase_heading l \<longleftrightarrow>
           (\<exists>digits label. l = ''## Phase '' @ digits @ '':'' @ label
              \<and> digits \<noteq> [] \<and> list_all is_digit digits \<and> label \<noteq> [])"
    if "l \<in> set (split_lines doc)" for l
    using heading_shape [OF split_lines_no_newline [OF that]] .
  have groups: "match_heading l = Some (py_int digits, py_strip label)"
    if "l \<in> set (split_lines doc)" "l = ''## Phase '' @ digits @ '':'' @ label"
      "digits \<noteq> []" "list_all is_digit digits" "label \<noteq> []"
    for l digits label
  proof -
    have "CHR 0x0A \<notin> set l" using split_lines_no_newline [OF that(1)] .
    then have "CHR 0x0A \<notin> set label" unfolding that(2) by simp
    then show ?thesis
      unfolding that(2) using heading_groups that(3,4,5) by blast
  qed
  from ex have "\<exists>pre segs.
       split_lines doc = pre @ concat (map (\<lambda>seg. fst seg # snd seg) segs)
       \<and> (\<forall>l \<in> set pre. \<not> is_phase_heading l)
       \<and> (\<forall>seg \<in> set segs. is_phase_heading (fst seg)
             \<and> (\<forall>l \<in> set (snd seg). \<not> is_phase_heading l))"
    by (intro exI)
  with all shape groups show ?thesis by blast
qed

theorem parse_plan_cuts_at_headings_witness:
  "parse_plan three_phase_world ''plan.md'' = Inr [setup_phase, build_phase, ship_phase]
   \<and> length (filter is_phase_heading (split_lines three_phases)) = 3"
proof -
  let ?pre = "[''# Plan'', '''']"
  let ?segs = "[(''## Phase 1: Setup'', [''#### Automated Verification:'', ''- [ ] lint passes'']),
                (''## Phase 2: Build'', [''#### Automated Verification:'', ''- [ ] tests pass'']),
                (''## Phase 3: Ship'', [''#### Automated Verification:'', ''- [ ] deploy works''])]"
  have f: "plan_file three_phase_world ''plan.md'' = Some three_phases"
    by (simp add: three_phase_world_def)
  have l: "split_lines three_phases = ?pre @ concat (map (\<lambda>seg. fst seg # snd seg) ?segs)"
    by code_simp
  have p: "\<forall>l \<in> set ?pre. \<not> is_phase_heading l"
    by code_simp
  have s: "\<forall>seg \<in> set ?segs. is_phase_heading (fst seg)
             \<and> (\<forall>l \<in> set (snd seg). \<not> is_phase_heading l)"
    by code_simp
  have m: "map phase_of ?segs = [setup_phase, build_phase, ship_phase]"
    by code_simp
  from parse_plan_cuts_at_headings [OF f, THEN conjunct2, THEN conjunct1, rule_format,
      of ?pre ?segs] l p s
  have "parse_plan three_phase_world ''plan.md'' = Inr (map phase_of ?segs)
      \<and> length ?segs = length (filter is_phase_heading (split_lines three_phases))"
    by blast
  then show ?thesis unfolding m by simp
qed

end
